theory Spec2Isabelle
  imports Main "HOL-Library.AList"
begin

section \<open>Data model (src/types/index.ts)\<close>

text \<open>
  Opaque payloads of TypeScript type \<^verbatim>\<open>any\<close> (step input, output, metadata, final
  outcome) are carried as their JSON text. A parameter of type \<^verbatim>\<open>any\<close> also admits
  \<open>undefined\<close>: it is an \<open>any option\<close>, \<open>None\<close> being \<open>undefined\<close>, and a field assigned
  \<open>undefined\<close> is an absent field. Timestamps are produced by
  \<^verbatim>\<open>new Date().toISOString()\<close>, which has millisecond precision and is read back
  by \<^verbatim>\<open>new Date(s).getTime()\<close> without loss; they are modelled by the number of
  milliseconds they denote. An optional field (\<^verbatim>\<open>f?: T\<close>) is an \<open>option\<close>.
\<close>

type_synonym any = string
type_synonym millis = int

record Step =
  name :: string
  step_input :: "any option"
  step_output :: "any option"
  step_error :: "string option"
  timestamp :: "millis option"
  startedAt :: "millis option"
  endedAt :: "millis option"
  durationMs :: "int option"
  reasoning :: "string option"
  metadata :: "any option"

record Execution =
  executionId :: string
  projectId :: "string option"
  exec_startedAt :: millis
  exec_endedAt :: "millis option"
  exec_metadata :: "any option"
  steps :: "Step list"
  finalOutcome :: "any option"

datatype job_status = Pending | Processing | Completed | Failed

record ReasoningJob =
  job_id :: string
  job_executionId :: string
  stepName :: string
  attempt :: int
  status :: job_status
  createdAt :: millis
  job_startedAt :: "millis option"
  completedAt :: "millis option"
  job_error :: "string option"
  nextRetryAt :: "millis option"

record QueueStats =
  pending :: nat
  processing :: nat
  completed :: nat
  failed :: nat
  totalJobs :: nat

section \<open>The tracker (src/XRay.ts)\<close>

text \<open>
  \<open>activeSteps\<close> is the \<^verbatim>\<open>Map<string, Step>\<close> of open steps. A step object sits in
  \<open>activeSteps\<close> until \<open>endStep\<close> or \<open>errorStep\<close> pushes it to
  \<open>execution.steps\<close> and deletes the key, so no object is ever reachable from both
  places and plain values model the objects. Every function takes the clock readings
  it makes as arguments.
\<close>

record XRay =
  execution :: Execution
  activeSteps :: "string \<rightharpoonup> Step"
  pendingReasoningSteps :: "string list"

definition new_XRay :: "string \<Rightarrow> any option \<Rightarrow> millis \<Rightarrow> XRay" where
  "new_XRay eid md now =
     \<lparr>execution = \<lparr>executionId = eid, projectId = None, exec_startedAt = now,
                    exec_endedAt = None, exec_metadata = md, steps = [],
                    finalOutcome = None\<rparr>,
      activeSteps = Map.empty,
      pendingReasoningSteps = []\<rparr>"

definition push_step :: "Step \<Rightarrow> XRay \<Rightarrow> XRay" where
  "push_step st x = x\<lparr>execution := (execution x)\<lparr>steps := steps (execution x) @ [st]\<rparr>\<rparr>"

definition logStep ::
  "string \<Rightarrow> any option \<Rightarrow> any option \<Rightarrow> any option \<Rightarrow> millis \<Rightarrow> XRay \<Rightarrow> XRay" where
  "logStep nm inp out md now x =
     push_step \<lparr>name = nm, step_input = inp, step_output = out, step_error = None,
                timestamp = Some now, startedAt = None, endedAt = None,
                durationMs = None, reasoning = None, metadata = md\<rparr> x"

definition startStep ::
  "string \<Rightarrow> any option \<Rightarrow> any option \<Rightarrow> millis \<Rightarrow> millis \<Rightarrow> XRay \<Rightarrow> XRay" where
  "startStep nm inp md now1 now2 x =
     x\<lparr>activeSteps := (activeSteps x)(nm \<mapsto>
          \<lparr>name = nm, step_input = inp, step_output = None, step_error = None,
           timestamp = Some now1, startedAt = Some now2, endedAt = None,
           durationMs = None, reasoning = None, metadata = md\<rparr>)\<rparr>"

text \<open>
  \<^verbatim>\<open>new Date(step.endedAt).getTime() - new Date(step.startedAt!).getTime()\<close>: the
  difference of the two readings. A step without \<open>startedAt\<close> would give NaN, kept
  here as an absent duration; \<open>startStep\<close> always sets the field.
\<close>

definition duration :: "millis \<Rightarrow> millis option \<Rightarrow> int option" where
  "duration e s = (case s of None \<Rightarrow> None | Some b \<Rightarrow> Some (e - b))"

text \<open>
  The common end of \<open>endStep\<close> and \<open>errorStep\<close>: the step is pushed to
  \<open>execution.steps\<close>, its name is deleted from \<open>activeSteps\<close> and pushed to
  \<open>pendingReasoningSteps\<close>.
\<close>

definition finish :: "string \<Rightarrow> Step \<Rightarrow> XRay \<Rightarrow> XRay" where
  "finish nm st x =
     (push_step st x)\<lparr>activeSteps := (activeSteps x)(nm := None),
                       pendingReasoningSteps := pendingReasoningSteps x @ [name st]\<rparr>"

text \<open>
  \<^verbatim>\<open>endStep(name: string, output: any)\<close> assigns \<^verbatim>\<open>step.output = output\<close>, whatever the
  output is; \<^verbatim>\<open>errorStep(name: string, error: Error)\<close> assigns
  \<^verbatim>\<open>step.error = error.message\<close>, the message of an \<open>Error\<close> being a string.
\<close>

definition endStep :: "string \<Rightarrow> any option \<Rightarrow> millis \<Rightarrow> XRay \<Rightarrow> XRay" where
  "endStep nm out now x =
     (case activeSteps x nm of
        None \<Rightarrow> x
      | Some st \<Rightarrow>
          finish nm (st\<lparr>step_output := out, endedAt := Some now,
                        durationMs := duration now (startedAt st),
                        reasoning := None\<rparr>) x)"

definition errorStep :: "string \<Rightarrow> string \<Rightarrow> millis \<Rightarrow> XRay \<Rightarrow> XRay" where
  "errorStep nm msg now x =
     (case activeSteps x nm of
        None \<Rightarrow> x
      | Some st \<Rightarrow>
          finish nm (st\<lparr>step_error := Some msg, endedAt := Some now,
                        durationMs := duration now (startedAt st),
                        reasoning := None\<rparr>) x)"

definition end_execution :: "any option \<Rightarrow> millis \<Rightarrow> XRay \<Rightarrow> XRay" where
  "end_execution outcome now x =
     x\<lparr>execution := (execution x)\<lparr>exec_endedAt := Some now, finalOutcome := outcome\<rparr>\<rparr>"

text \<open>A sequence of calls made on one tracker.\<close>

datatype tracker_call =
    StartStep string "any option" "any option" millis millis
  | EndStep string "any option" millis
  | ErrorStep string string millis
  | LogStep string "any option" "any option" "any option" millis

fun tracker_step :: "XRay \<Rightarrow> tracker_call \<Rightarrow> XRay" where
  "tracker_step x (StartStep nm inp md t1 t2) = startStep nm inp md t1 t2 x"
| "tracker_step x (EndStep nm out t) = endStep nm out t x"
| "tracker_step x (ErrorStep nm msg t) = errorStep nm msg t x"
| "tracker_step x (LogStep nm inp out md t) = logStep nm inp out md t x"

definition tracker_run :: "tracker_call list \<Rightarrow> XRay \<Rightarrow> XRay" where
  "tracker_run cs x = foldl tracker_step x cs"

section \<open>Configuration (src/reasoning/config.ts)\<close>

text \<open>
  \<open>concurrency\<close> is handed to the PQueue constructor, which accepts only a number
  of at least one. \<open>maxRetries\<close> and the entries of \<open>retryDelays\<close> are integers.
\<close>

record ReasoningConfig =
  concurrency :: nat
  maxRetries :: int
  retryDelays :: "int list"
  debug :: bool

definition DEFAULT_REASONING_CONFIG :: ReasoningConfig where
  "DEFAULT_REASONING_CONFIG =
     \<lparr>concurrency = 3, maxRetries = 4, retryDelays = [1000, 2000, 4000, 8000], debug = False\<rparr>"

section \<open>Errors\<close>

text \<open>
  A thrown JavaScript value, as far as the queue reads it: its \<open>message\<close> (empty when
  there is none: both count as falsy), its \<open>code\<close>, and what \<^verbatim>\<open>String(error)\<close> gives.
\<close>

record js_error =
  err_message :: string
  err_code :: "string option"
  err_string :: string

text \<open>\<^verbatim>\<open>new Error(msg)\<close>\<close>

definition Error :: "string \<Rightarrow> js_error" where
  "Error msg = \<lparr>err_message = msg, err_code = None,
                err_string = (if msg = [] then ''Error'' else ''Error: '' @ msg)\<rparr>"

text \<open>\<^verbatim>\<open>error.message || String(error)\<close>\<close>

definition errorMessage :: "js_error \<Rightarrow> string" where
  "errorMessage e = (if err_message e = [] then err_string e else err_message e)"

text \<open>\<^verbatim>\<open>String.prototype.startsWith\<close> and \<^verbatim>\<open>String.prototype.includes\<close>.\<close>

fun startsWith :: "string \<Rightarrow> string \<Rightarrow> bool" where
  "startsWith s [] = True"
| "startsWith [] (p # ps) = False"
| "startsWith (c # cs) (p # ps) = (c = p \<and> startsWith cs ps)"

fun str_includes :: "string \<Rightarrow> string \<Rightarrow> bool" where
  "str_includes [] p = (p = [])"
| "str_includes (c # cs) p = (startsWith (c # cs) p \<or> str_includes cs p)"

definition retryablePatterns :: "string list" where
  "retryablePatterns =
     [''ECONNRESET'', ''ETIMEDOUT'', ''ENOTFOUND'', ''rate_limit_exceeded'',
      ''service_unavailable'', ''timeout'', ''429'', ''503'', ''502'']"

definition isRetryableError :: "js_error \<Rightarrow> bool" where
  "isRetryableError e =
     list_ex (\<lambda>pattern. str_includes (errorMessage e) pattern \<or> err_code e = Some pattern)
       retryablePatterns"

section \<open>In-memory storage (src/storage/MemoryStorage.ts)\<close>

text \<open>
  The \<^verbatim>\<open>Map<string, Execution>\<close> of the storage. \<open>getExecutionById\<close> and
  \<open>saveExecution\<close> copy the record (a JSON round trip), so a caller never shares an
  object with the storage: values model that.
\<close>

type_synonym memory_storage = "string \<rightharpoonup> Execution"

definition saveExecution :: "Execution \<Rightarrow> memory_storage \<Rightarrow> memory_storage" where
  "saveExecution ex st = st(executionId ex \<mapsto> ex)"

definition getExecutionById :: "string \<Rightarrow> memory_storage \<Rightarrow> Execution option" where
  "getExecutionById eid st = st eid"

text \<open>\<^verbatim>\<open>steps.find(s => s.name === stepName)\<close> followed by the assignment to the step found.\<close>

fun set_reasoning :: "string \<Rightarrow> string \<Rightarrow> Step list \<Rightarrow> Step list option" where
  "set_reasoning nm r [] = None"
| "set_reasoning nm r (st # sts) =
     (if name st = nm then Some (st\<lparr>reasoning := Some r\<rparr> # sts)
      else map_option ((#) st) (set_reasoning nm r sts))"

definition updateStepReasoning ::
  "string \<Rightarrow> string \<Rightarrow> string \<Rightarrow> memory_storage \<Rightarrow> js_error + memory_storage" where
  "updateStepReasoning eid nm r st =
     (case st eid of
        None \<Rightarrow> Inl (Error (''Execution '' @ eid @ '' not found''))
      | Some ex \<Rightarrow>
          (case set_reasoning nm r (steps ex) of
             None \<Rightarrow> Inl (Error (''Step '' @ nm @ '' not found in execution '' @ eid))
           | Some sts \<Rightarrow> Inr (st(eid \<mapsto> ex\<lparr>steps := sts\<rparr>))))"

section \<open>The reasoning queue (src/reasoning/queue.ts)\<close>

text \<open>
  The queue runs on the JavaScript event loop. Its state is the state of the class
  together with what the event loop holds for it:

  \<^item> \<open>heap\<close>: the \<open>ReasoningJob\<close> objects, addressed by their position. A task keeps the
    reference it read from the map, so that it goes on mutating its object after
    \<open>clear()\<close> has emptied the map.
  \<^item> \<open>jobs\<close>: the \<^verbatim>\<open>Map<string, ReasoningJob>\<close>, from job id to address, in insertion order.
  \<^item> \<open>pq_waiting\<close>, \<open>pq_running\<close>: the PQueue (the p-queue package): the job ids of the
    tasks \<^verbatim>\<open>() => this.processJob(jobId)\<close> not started yet, and the started tasks, each
    suspended at \<^verbatim>\<open>await this.generator(step)\<close> with its job reference and the step it
    passed.
  \<^item> \<open>timers\<close>: the callbacks handed to \<open>setTimeout\<close> by \<open>handleJobError\<close>: the delay and
    the job id each will submit.
  \<^item> \<open>storage\<close>: the storage provider, here the in-memory one.
  \<^item> \<open>generator_calls\<close>: every invocation of the generator so far (job reference, step).
  \<^item> \<open>skipped\<close>: the jobs for which \<open>processJob\<close> found the reasoning in place and
    logged \<^verbatim>\<open>Reasoning already exists for ..., skipping\<close>, in the order of the log.
  \<^item> \<open>uuid\<close>, \<open>uuid_calls\<close>: the results of \<open>randomUUID()\<close> in the order of the calls, and
    the number of calls made.
  \<^item> \<open>awaiting_idle\<close>, \<open>returned\<close>: the calls of \<open>processExecution\<close> suspended at
    \<^verbatim>\<open>await this.queue.onIdle()\<close>, and those that have returned, each with the job ids
    of its batch.

  The queue is the one built without a Prisma client: the mirror writes to the job
  table sit behind \<^verbatim>\<open>if (this.prisma)\<close>, swallow their failures and never touch the state
  above. Without them, and with the in-memory storage, the only await of \<open>processJob\<close>
  that waits for the outside world is the generator call: \<open>getExecutionById\<close> and
  \<open>updateStepReasoning\<close> of the in-memory storage act on the map at the call and return
  a settled promise. The code between two generator calls is one atomic step here.

  The PQueue is the dispatcher of the p-queue package, which is not part of the
  repository: \<open>add\<close> runs the task at once when fewer than \<open>concurrency\<close> tasks are
  running and queues it otherwise, the end of a task starts the first queued task, and
  \<open>onIdle()\<close> settles when no task is running or queued. A timer of \<open>setTimeout\<close>
  fires at some later time; the model lets it fire at any later event.
\<close>

record queue_state =
  config :: ReasoningConfig
  heap :: "ReasoningJob list"
  jobs :: "(string \<times> nat) list"
  pq_waiting :: "string list"
  pq_running :: "(nat \<times> Step) list"
  timers :: "(int \<times> string) list"
  storage :: memory_storage
  generator_calls :: "(nat \<times> Step) list"
  skipped :: "nat list"
  uuid :: "nat \<Rightarrow> string"
  uuid_calls :: nat
  now :: millis
  awaiting_idle :: "string list list"
  returned :: "string list list"

definition new_ReasoningQueue ::
  "memory_storage \<Rightarrow> ReasoningConfig \<Rightarrow> (nat \<Rightarrow> string) \<Rightarrow> millis \<Rightarrow> queue_state" where
  "new_ReasoningQueue st cfg ids t =
     \<lparr>config = cfg, heap = [], jobs = [], pq_waiting = [], pq_running = [], timers = [],
      storage = st, generator_calls = [], skipped = [], uuid = ids, uuid_calls = 0, now = t,
      awaiting_idle = [], returned = []\<rparr>"

text \<open>A write through a job reference.\<close>

definition upd_job :: "nat \<Rightarrow> (ReasoningJob \<Rightarrow> ReasoningJob) \<Rightarrow> queue_state \<Rightarrow> queue_state" where
  "upd_job a f s = s\<lparr>heap := (heap s)[a := f (heap s ! a)]\<rparr>"

text \<open>
  \<^verbatim>\<open>this.config.retryDelays[job.attempt - 1] || 8000\<close>: an index outside the array reads
  \<open>undefined\<close>, and \<open>undefined\<close> and \<open>0\<close> are falsy.
\<close>

definition retry_delay :: "ReasoningConfig \<Rightarrow> int \<Rightarrow> int" where
  "retry_delay cfg att =
     (let i = att - 1 in
      if 0 \<le> i \<and> i < int (length (retryDelays cfg)) \<and> retryDelays cfg ! nat i \<noteq> 0
      then retryDelays cfg ! nat i else 8000)"

text \<open>
  \<^verbatim>\<open>new Date(t).toISOString()\<close>: a time value beyond 8.64e15 milliseconds on either side
  of the epoch makes an invalid \<open>Date\<close>, and \<open>toISOString\<close> throws a \<open>RangeError\<close> on it
  (\<open>None\<close> here). \<open>Date.now()\<close> itself is the present, a time value: the dates made by
  \<^verbatim>\<open>new Date()\<close> are valid, and only a sum can leave the range.
\<close>

definition date_valid :: "millis \<Rightarrow> bool" where
  "date_valid t = (- 8640000000000000 \<le> t \<and> t \<le> 8640000000000000)"

definition toISOString :: "millis \<Rightarrow> millis option" where
  "toISOString t = (if date_valid t then Some t else None)"

text \<open>
  \<open>handleJobError\<close>. In the retry branch the attempt is incremented and the status set
  back to pending before \<open>nextRetryAt\<close> is computed; when that throws, \<open>setTimeout\<close> is
  not reached: the error leaves \<open>handleJobError\<close> and \<open>processJob\<close>, whose task ends,
  and the job stays pending with no timer to submit it again.
\<close>

definition handleJobError :: "nat \<Rightarrow> js_error \<Rightarrow> queue_state \<Rightarrow> queue_state" where
  "handleJobError a err s =
     (let s1 = upd_job a (\<lambda>j. j\<lparr>job_error := Some (errorMessage err)\<rparr>) s;
          job = heap s1 ! a
      in if isRetryableError err \<and> attempt job < maxRetries (config s) then
           (let delay = retry_delay (config s) (attempt job);
                s2 = upd_job a (\<lambda>j. j\<lparr>attempt := attempt j + 1, status := Pending\<rparr>) s1
            in case toISOString (now s + delay) of
                 None \<Rightarrow> s2
               | Some d \<Rightarrow>
                   (upd_job a (\<lambda>j. j\<lparr>nextRetryAt := Some d\<rparr>) s2)
                     \<lparr>timers := timers s1 @ [(delay, job_id job)]\<rparr>)
         else upd_job a (\<lambda>j. j\<lparr>status := Failed, completedAt := Some (now s)\<rparr>) s1)"

text \<open>\<^verbatim>\<open>if (step.reasoning)\<close>: an absent and an empty reasoning are both falsy.\<close>

definition has_reasoning :: "Step \<Rightarrow> bool" where
  "has_reasoning st = (case reasoning st of None \<Rightarrow> False | Some r \<Rightarrow> r \<noteq> [])"

text \<open>
  \<open>processJob\<close> from its start to the point where it returns or suspends at the
  generator call.
\<close>

definition processJob :: "string \<Rightarrow> queue_state \<Rightarrow> queue_state" where
  "processJob jobId s =
     (case map_of (jobs s) jobId of
        None \<Rightarrow> s
      | Some a \<Rightarrow>
          (let s1 = upd_job a (\<lambda>j. j\<lparr>status := Processing, job_startedAt := Some (now s)\<rparr>) s;
               job = heap s1 ! a
           in case getExecutionById (job_executionId job) (storage s1) of
                None \<Rightarrow>
                  handleJobError a (Error (''Execution '' @ job_executionId job @ '' not found'')) s1
              | Some ex \<Rightarrow>
                  (case find (\<lambda>st. name st = stepName job) (steps ex) of
                     None \<Rightarrow>
                       handleJobError a
                         (Error (''Step '' @ stepName job @ '' not found in execution ''
                                   @ job_executionId job)) s1
                   | Some st \<Rightarrow>
                       if has_reasoning st then
                         (upd_job a (\<lambda>j. j\<lparr>status := Completed, completedAt := Some (now s)\<rparr>) s1)
                           \<lparr>skipped := skipped s1 @ [a]\<rparr>
                       else
                         s1\<lparr>pq_running := pq_running s1 @ [(a, st)],
                            generator_calls := generator_calls s1 @ [(a, st)]\<rparr>)))"

lemma pq_waiting_upd_job: "pq_waiting (upd_job a f s) = pq_waiting s"
  by (simp add: upd_job_def)

lemma pq_waiting_handleJobError: "pq_waiting (handleJobError a err s) = pq_waiting s"
  by (simp add: handleJobError_def Let_def pq_waiting_upd_job split: option.splits)

lemma pq_waiting_processJob: "pq_waiting (processJob jobId s) = pq_waiting s"
  by (simp add: processJob_def Let_def pq_waiting_upd_job pq_waiting_handleJobError
        split: option.splits)

text \<open>
  The PQueue starts a waiting task whenever fewer than \<open>concurrency\<close> tasks are running:
  when a task is added and when a task ends. A task that ends without suspending
  frees its slot at once.
\<close>

function tryToStartAnother :: "queue_state \<Rightarrow> queue_state" where
  "tryToStartAnother s =
     (case pq_waiting s of
        [] \<Rightarrow> s
      | jobId # rest \<Rightarrow>
          if length (pq_running s) < concurrency (config s)
          then tryToStartAnother (processJob jobId (s\<lparr>pq_waiting := rest\<rparr>))
          else s)"
  by pat_completeness auto
termination
  by (relation "measure (\<lambda>s. length (pq_waiting s))") (simp_all add: pq_waiting_processJob)

declare tryToStartAnother.simps [simp del]

text \<open>\<^verbatim>\<open>this.queue.add(() => this.processJob(jobId))\<close>\<close>

definition pq_add :: "string \<Rightarrow> queue_state \<Rightarrow> queue_state" where
  "pq_add jobId s = tryToStartAnother (s\<lparr>pq_waiting := pq_waiting s @ [jobId]\<rparr>)"

text \<open>
  \<open>onIdle()\<close> settles once the PQueue has no waiting and no running task; the
  suspended \<open>processExecution\<close> calls return then.
\<close>

definition pq_idle :: "queue_state \<Rightarrow> bool" where
  "pq_idle s = (pq_waiting s = [] \<and> pq_running s = [])"

definition resolve_idle :: "queue_state \<Rightarrow> queue_state" where
  "resolve_idle s =
     (if pq_idle s then s\<lparr>returned := returned s @ awaiting_idle s, awaiting_idle := []\<rparr>
      else s)"

definition new_job :: "string \<Rightarrow> string \<Rightarrow> string \<Rightarrow> int \<Rightarrow> millis \<Rightarrow> ReasoningJob" where
  "new_job jobId eid nm att t =
     \<lparr>job_id = jobId, job_executionId = eid, stepName = nm, attempt = att, status = Pending,
      createdAt = t, job_startedAt = None, completedAt = None, job_error = None,
      nextRetryAt = None\<rparr>"

text \<open>\<^verbatim>\<open>this.jobs.set(job.id, job)\<close> for a job object just created.\<close>

definition jobs_set :: "ReasoningJob \<Rightarrow> queue_state \<Rightarrow> queue_state" where
  "jobs_set job s =
     s\<lparr>heap := heap s @ [job], jobs := AList.update (job_id job) (length (heap s)) (jobs s)\<rparr>"

definition enqueue :: "string \<Rightarrow> string \<Rightarrow> queue_state \<Rightarrow> string \<times> queue_state" where
  "enqueue eid nm s =
     (let jobId = uuid s (uuid_calls s);
          s1 = jobs_set (new_job jobId eid nm 1 (now s)) (s\<lparr>uuid_calls := uuid_calls s + 1\<rparr>)
      in (jobId, pq_add jobId s1))"

text \<open>The loop of \<open>enqueueExecution\<close> over the steps of the execution it loaded.\<close>

fun enqueue_steps ::
  "string \<Rightarrow> Step list \<Rightarrow> string list \<Rightarrow> queue_state \<Rightarrow> string list \<times> queue_state" where
  "enqueue_steps eid [] jobIds s = (jobIds, s)"
| "enqueue_steps eid (st # sts) jobIds s =
     (if \<not> has_reasoning st then
        (case enqueue eid (name st) s of
           (jobId, s') \<Rightarrow> enqueue_steps eid sts (jobIds @ [jobId]) s')
      else enqueue_steps eid sts jobIds s)"

definition enqueueExecution ::
  "string \<Rightarrow> queue_state \<Rightarrow> js_error + (string list \<times> queue_state)" where
  "enqueueExecution eid s =
     (case getExecutionById eid (storage s) of
        None \<Rightarrow> Inl (Error (''Execution '' @ eid @ '' not found''))
      | Some ex \<Rightarrow> Inr (enqueue_steps eid (steps ex) [] s))"

text \<open>
  \<open>processExecution\<close> up to its return or its suspension at \<open>onIdle()\<close>.
\<close>

definition processExecution :: "string \<Rightarrow> queue_state \<Rightarrow> js_error + queue_state" where
  "processExecution eid s =
     (case enqueueExecution eid s of
        Inl e \<Rightarrow> Inl e
      | Inr (jobIds, s') \<Rightarrow>
          Inr (if jobIds = [] then s'\<lparr>returned := returned s' @ [jobIds]\<rparr>
               else s'\<lparr>awaiting_idle := awaiting_idle s' @ [jobIds]\<rparr>))"

text \<open>
  The rows \<open>loadPendingJobs\<close> reads back from the job table, and its loop over them.
  (A queue built with a Prisma client runs it once; it is kept as an event of its own
  for the job map, whose content the mirror writes do not change.)
\<close>

record db_job =
  db_id :: string
  db_executionId :: string
  db_stepName :: string
  db_attempts :: int
  db_createdAt :: millis

fun loadPendingJobs :: "db_job list \<Rightarrow> queue_state \<Rightarrow> queue_state" where
  "loadPendingJobs [] s = s"
| "loadPendingJobs (d # ds) s =
     loadPendingJobs ds
       (pq_add (db_id d)
          (jobs_set (new_job (db_id d) (db_executionId d) (db_stepName d) (db_attempts d)
                       (db_createdAt d)) s))"

text \<open>\<^verbatim>\<open>Array.from(this.jobs.values())\<close>\<close>

definition job_values :: "queue_state \<Rightarrow> ReasoningJob list" where
  "job_values s = map (\<lambda>(k, a). heap s ! a) (jobs s)"

definition getStats :: "queue_state \<Rightarrow> QueueStats" where
  "getStats s =
     \<lparr>pending = length (filter (\<lambda>j. status j = Pending) (job_values s)),
      processing = length (filter (\<lambda>j. status j = Processing) (job_values s)),
      completed = length (filter (\<lambda>j. status j = Completed) (job_values s)),
      failed = length (filter (\<lambda>j. status j = Failed) (job_values s)),
      totalJobs = length (job_values s)\<rparr>"

definition getJob :: "string \<Rightarrow> queue_state \<Rightarrow> ReasoningJob option" where
  "getJob jobId s = map_option (\<lambda>a. heap s ! a) (map_of (jobs s) jobId)"

definition clear :: "queue_state \<Rightarrow> queue_state" where
  "clear s = s\<lparr>jobs := []\<rparr>"

text \<open>
  The generator call of the \<open>i\<close>-th running task settles: with a reasoning (then
  \<open>updateStepReasoning\<close> and the completion of the job follow) or with an error (then
  \<open>handleJobError\<close>). The task ends and the PQueue starts the next one.
\<close>

definition generator_settles :: "nat \<Rightarrow> js_error + string \<Rightarrow> queue_state \<Rightarrow> queue_state" where
  "generator_settles i res s =
     (if i < length (pq_running s) then
        (let a = fst (pq_running s ! i);
             s1 = s\<lparr>pq_running := take i (pq_running s) @ drop (Suc i) (pq_running s)\<rparr>;
             job = heap s1 ! a
         in tryToStartAnother
              (case res of
                 Inl err \<Rightarrow> handleJobError a err s1
               | Inr r \<Rightarrow>
                   (case updateStepReasoning (job_executionId job) (stepName job) r (storage s1) of
                      Inl err \<Rightarrow> handleJobError a err s1
                    | Inr st' \<Rightarrow>
                        upd_job a (\<lambda>j. j\<lparr>status := Completed, completedAt := Some (now s)\<rparr>)
                          (s1\<lparr>storage := st'\<rparr>))))
      else s)"

text \<open>The \<open>i\<close>-th timer fires: \<^verbatim>\<open>this.queue.add(() => this.processJob(job.id))\<close>.\<close>

definition timer_fires :: "nat \<Rightarrow> queue_state \<Rightarrow> queue_state" where
  "timer_fires i s =
     (if i < length (timers s) then
        pq_add (snd (timers s ! i)) (s\<lparr>timers := take i (timers s) @ drop (Suc i) (timers s)\<rparr>)
      else s)"

text \<open>
  What can happen to a queue: a call of one of its methods, a generator call
  settling, a retry timer firing, the clock moving on, and an execution being saved to
  the storage it reads. An event that cannot happen in a state (no such running task,
  no such timer, a method call that throws) leaves the state as it is.
\<close>

datatype event =
    Enqueue string string
  | EnqueueExecution string
  | ProcessExecution string
  | GeneratorSettles nat "js_error + string"
  | TimerFires nat
  | Clear
  | ClockAdvances int
  | SaveExecution Execution
  | LoadPendingJobs "db_job list"

fun queue_event :: "queue_state \<Rightarrow> event \<Rightarrow> queue_state" where
  "queue_event s (Enqueue eid nm) = snd (enqueue eid nm s)"
| "queue_event s (EnqueueExecution eid) =
     (case enqueueExecution eid s of Inl e \<Rightarrow> s | Inr (jobIds, s') \<Rightarrow> s')"
| "queue_event s (ProcessExecution eid) =
     (case processExecution eid s of Inl e \<Rightarrow> s | Inr s' \<Rightarrow> s')"
| "queue_event s (GeneratorSettles i res) = generator_settles i res s"
| "queue_event s (TimerFires i) = timer_fires i s"
| "queue_event s Clear = clear s"
| "queue_event s (ClockAdvances d) = s\<lparr>now := now s + d\<rparr>"
| "queue_event s (SaveExecution ex) = s\<lparr>storage := saveExecution ex (storage s)\<rparr>"
| "queue_event s (LoadPendingJobs ds) = loadPendingJobs ds s"

definition queue_step :: "queue_state \<Rightarrow> event \<Rightarrow> queue_state" where
  "queue_step s e = resolve_idle (queue_event s e)"

definition queue_run :: "event list \<Rightarrow> queue_state \<Rightarrow> queue_state" where
  "queue_run es s = foldl queue_step s es"

section \<open>Sample data\<close>

text \<open>
  One saved execution with a single finished step that has no reasoning yet, job ids
  \<open>j\<close>, \<open>jj\<close>, \<open>jjj\<close>, ... and a configuration with a short delay table.
\<close>

definition step_fetch :: Step where
  "step_fetch =
     \<lparr>name = ''fetch'', step_input = Some ''{q:shoes}'', step_output = Some ''{count:3}'',
      step_error = None, timestamp = Some 0, startedAt = Some 0, endedAt = Some 5,
      durationMs = Some 5, reasoning = None, metadata = None\<rparr>"

definition exec_1 :: Execution where
  "exec_1 =
     \<lparr>executionId = ''exec-1'', projectId = None, exec_startedAt = 0, exec_endedAt = Some 9,
      exec_metadata = None, steps = [step_fetch], finalOutcome = None\<rparr>"

definition sample_ids :: "nat \<Rightarrow> string" where
  "sample_ids n = replicate (Suc n) CHR ''j''"

definition short_table_config :: ReasoningConfig where
  "short_table_config =
     \<lparr>concurrency = 3, maxRetries = 5, retryDelays = [100, 200], debug = False\<rparr>"

definition ETIMEDOUT :: js_error where
  "ETIMEDOUT = Error ''ETIMEDOUT''"

definition sample_queue :: queue_state where
  "sample_queue =
     new_ReasoningQueue [''exec-1'' \<mapsto> exec_1] DEFAULT_REASONING_CONFIG sample_ids 0"

text \<open>The same execution, its step carrying the empty string as reasoning.\<close>

definition step_blank :: Step where
  "step_blank = step_fetch\<lparr>reasoning := Some []\<rparr>"

definition exec_blank :: Execution where
  "exec_blank = exec_1\<lparr>steps := [step_blank]\<rparr>"

definition blank_queue :: queue_state where
  "blank_queue =
     new_ReasoningQueue [''exec-1'' \<mapsto> exec_blank] DEFAULT_REASONING_CONFIG sample_ids 0"

definition no_retry_queue :: queue_state where
  "no_retry_queue =
     new_ReasoningQueue [''exec-1'' \<mapsto> exec_1] (DEFAULT_REASONING_CONFIG\<lparr>maxRetries := 0\<rparr>)
       sample_ids 0"





text \<open>
  A queue with two attempts for each job, and one whose first retry delay leads out of
  the range of dates.
\<close>

definition two_attempts_queue :: queue_state where
  "two_attempts_queue =
     new_ReasoningQueue [''exec-1'' \<mapsto> exec_1] (DEFAULT_REASONING_CONFIG\<lparr>maxRetries := 2\<rparr>)
       sample_ids 0"

definition far_retry_queue :: queue_state where
  "far_retry_queue =
     new_ReasoningQueue [''exec-1'' \<mapsto> exec_1]
       (DEFAULT_REASONING_CONFIG\<lparr>retryDelays := [8640000000000000]\<rparr>) sample_ids 1"

text \<open>
  A job of the short-table configuration (two delays, five attempts) in its third
  attempt, suspended at the generator call.
\<close>

definition third_attempt :: queue_state where
  "third_attempt =
     queue_run [Enqueue ''exec-1'' ''fetch'',
                GeneratorSettles 0 (Inl ETIMEDOUT), TimerFires 0,
                GeneratorSettles 0 (Inl ETIMEDOUT), TimerFires 0]
       (new_ReasoningQueue [''exec-1'' \<mapsto> exec_1] short_table_config sample_ids 0)"

section \<open>Vocabulary of the properties\<close>

text \<open>
  The call sequences of the ordering property: only \<open>startStep\<close>, \<open>endStep\<close> and
  \<open>errorStep\<close>, every name started at most once, and every finishing call made on a
  step that is open. \<open>opn\<close> are the open names, \<open>used\<close> the names started so far.
\<close>

fun matched :: "string list \<Rightarrow> string list \<Rightarrow> tracker_call list \<Rightarrow> bool" where
  "matched opn used [] = True"
| "matched opn used (StartStep nm inp md t1 t2 # cs) =
     (nm \<notin> set used \<and> matched (nm # opn) (nm # used) cs)"
| "matched opn used (EndStep nm out t # cs) =
     (nm \<in> set opn \<and> matched (removeAll nm opn) used cs)"
| "matched opn used (ErrorStep nm msg t # cs) =
     (nm \<in> set opn \<and> matched (removeAll nm opn) used cs)"
| "matched opn used (LogStep nm inp out md t # cs) = False"

text \<open>The finishing calls of a sequence, in order: the step name and the clock reading.\<close>

fun finishes :: "tracker_call list \<Rightarrow> (string \<times> millis option) list" where
  "finishes [] = []"
| "finishes (EndStep nm out t # cs) = (nm, Some t) # finishes cs"
| "finishes (ErrorStep nm msg t # cs) = (nm, Some t) # finishes cs"
| "finishes (c # cs) = finishes cs"

text \<open>A step with its start, its end and, as duration, their difference.\<close>

definition timed :: "Step \<Rightarrow> bool" where
  "timed st =
     (case (startedAt st, endedAt st, durationMs st) of
        (Some b, Some e, Some d) \<Rightarrow> d = e - b
      | _ \<Rightarrow> False)"

text \<open>
  The open steps of a tracker are those named by \<open>opn\<close>; each is stored under its own
  name, has its start and has neither output nor error.
\<close>

definition opens :: "string list \<Rightarrow> XRay \<Rightarrow> bool" where
  "opens opn x =
     ((\<forall>nm. (activeSteps x nm \<noteq> None) = (nm \<in> set opn)) \<and>
      (\<forall>nm st. activeSteps x nm = Some st \<longrightarrow> name st = nm \<and> startedAt st \<noteq> None
         \<and> step_output st = None \<and> step_error st = None))"

text \<open>No open step has an output or an error.\<close>

definition fresh_active :: "XRay \<Rightarrow> bool" where
  "fresh_active x =
     (\<forall>nm st. activeSteps x nm = Some st \<longrightarrow> step_output st = None \<and> step_error st = None)"

text \<open>The fields of a job that are set at its creation and never assigned again.\<close>

definition job_key :: "ReasoningJob \<Rightarrow> string \<times> string \<times> string" where
  "job_key j = (job_id j, job_executionId j, stepName j)"

text \<open>The job map and the identities of the job objects.\<close>

definition shape :: "queue_state \<Rightarrow> (string \<times> nat) list \<times> (string \<times> string \<times> string) list" where
  "shape s = (jobs s, map job_key (heap s))"

text \<open>What the dispatch of tasks leaves alone.\<close>

definition fixed :: "queue_state \<Rightarrow> ReasoningConfig \<times> (nat \<Rightarrow> string) \<times> nat \<times> millis \<times> memory_storage" where
  "fixed s = (config s, uuid s, uuid_calls s, now s, storage s)"

text \<open>One call of \<open>enqueue\<close> for each step name of a list, in order, collecting the job ids.\<close>

fun enqueue_each :: "string \<Rightarrow> string list \<Rightarrow> queue_state \<Rightarrow> string list \<times> queue_state" where
  "enqueue_each eid [] s = ([], s)"
| "enqueue_each eid (nm # nms) s =
     (case enqueue eid nm s of
        (jobId, s') \<Rightarrow> (case enqueue_each eid nms s' of (jobIds, s'') \<Rightarrow> (jobId # jobIds, s'')))"

text \<open>The steps \<open>enqueueExecution\<close> enqueues: those whose reasoning is absent or empty.\<close>

definition lacking :: "Step list \<Rightarrow> Step list" where
  "lacking sts = filter (\<lambda>st. \<not> has_reasoning st) sts"

text \<open>The ids of all job objects created so far, in the order of their creation.\<close>

definition job_ids :: "queue_state \<Rightarrow> string list" where
  "job_ids s = map job_id (heap s)"

text \<open>
  The map holds exactly the jobs created after the first \<open>b\<close> ones, in the order of
  their creation.
\<close>

definition tracked :: "nat \<Rightarrow> queue_state \<Rightarrow> bool" where
  "tracked b s = (b \<le> length (heap s) \<and> map fst (jobs s) = drop b (job_ids s))"

text \<open>The number of entries of the job map whose job has the status \<open>x\<close>.\<close>

definition count_in_map :: "job_status \<Rightarrow> queue_state \<Rightarrow> nat" where
  "count_in_map x s = length (filter (\<lambda>(k, a). status (heap s ! a) = x) (jobs s))"

section \<open>Vocabulary of the interleavings\<close>

text \<open>
  Where the tasks of a job are. A job may be named by entries of the PQueue's waiting
  list (\<open>w\<close> of them), be the job of running tasks (\<open>r\<close>) and be named by retry timers
  (\<open>t\<close>). A job in processing has exactly one task, running; a completed or failed job
  has none; a pending job has at most one, waiting or behind a timer, and exactly one
  (\<open>strict\<close>) as long as no retry date was invalid.
\<close>

definition tokens_for :: "bool \<Rightarrow> job_status \<Rightarrow> nat \<Rightarrow> nat \<Rightarrow> nat \<Rightarrow> bool" where
  "tokens_for strict x w r t =
     (case x of
        Pending \<Rightarrow> (if strict then w + t = 1 else w + t \<le> 1) \<and> r = 0
      | Processing \<Rightarrow> w = 0 \<and> r = 1 \<and> t = 0
      | Completed \<Rightarrow> w = 0 \<and> r = 0 \<and> t = 0
      | Failed \<Rightarrow> w = 0 \<and> r = 0 \<and> t = 0)"

definition job_tokens_ok :: "bool \<Rightarrow> queue_state \<Rightarrow> nat \<Rightarrow> bool" where
  "job_tokens_ok strict s a =
     tokens_for strict (status (heap s ! a))
       (count_list (pq_waiting s) (job_id (heap s ! a)))
       (count_list (map fst (pq_running s)) a)
       (count_list (map snd (timers s)) (job_id (heap s ! a)))"

text \<open>No task names a job that was never created.\<close>

definition no_stray :: "queue_state \<Rightarrow> bool" where
  "no_stray s =
     ((\<forall>k. k \<notin> set (job_ids s) \<longrightarrow>
          count_list (pq_waiting s) k = 0 \<and> count_list (map snd (timers s)) k = 0)
      \<and> (\<forall>a. length (heap s) \<le> a \<longrightarrow> count_list (map fst (pq_running s)) a = 0))"

definition tokens_ok :: "bool \<Rightarrow> queue_state \<Rightarrow> bool" where
  "tokens_ok strict s = ((\<forall>a < length (heap s). job_tokens_ok strict s a) \<and> no_stray s)"

text \<open>
  The state inside a task of job \<open>a\<close>: its entry has been taken from the waiting list,
  the running tasks or the timers, and the job has not been placed again.
\<close>

definition tokens_ok_but :: "bool \<Rightarrow> nat \<Rightarrow> queue_state \<Rightarrow> bool" where
  "tokens_ok_but strict a s =
     (a < length (heap s)
      \<and> (\<forall>b < length (heap s). b \<noteq> a \<longrightarrow> job_tokens_ok strict s b)
      \<and> count_list (pq_waiting s) (job_id (heap s ! a)) = 0
      \<and> count_list (map fst (pq_running s)) a = 0
      \<and> count_list (map snd (timers s)) (job_id (heap s ! a)) = 0
      \<and> no_stray s)"

text \<open>The job map holds every job object under its id (no \<open>clear()\<close> has happened).\<close>

definition mapped :: "queue_state \<Rightarrow> bool" where
  "mapped s = (jobs s = zip (job_ids s) [0..<length (heap s)])"

text \<open>
  Every retry date that \<open>handleJobError\<close> can compute at the present clock reading is a
  valid date: \<open>now + delay\<close> for the delay of each attempt that has a retry.
\<close>

definition dates_ok :: "queue_state \<Rightarrow> bool" where
  "dates_ok s =
     list_all (\<lambda>k. date_valid (now s + retry_delay (config s) (int k)))
       [1..<nat (maxRetries (config s))]"

text \<open>
  A queue in order: the job map is complete, every job has its tasks where its status
  says, the job ids are distinct and every attempt counter is at least one.
\<close>

definition orderly :: "bool \<Rightarrow> queue_state \<Rightarrow> bool" where
  "orderly strict s =
     (mapped s \<and> tokens_ok strict s \<and> distinct (job_ids s)
      \<and> list_all (\<lambda>j. 1 \<le> attempt j) (heap s))"

text \<open>\<^verbatim>\<open>if (step.reasoning)\<close> for the step \<open>nm\<close> of the execution \<open>eid\<close> in the storage.\<close>

definition stored_reasoning :: "string \<Rightarrow> string \<Rightarrow> queue_state \<Rightarrow> bool" where
  "stored_reasoning eid nm s =
     (case storage s eid of
        None \<Rightarrow> False
      | Some ex \<Rightarrow>
          (case find (\<lambda>x. name x = nm) (steps ex) of
             None \<Rightarrow> False
           | Some st \<Rightarrow> has_reasoning st))"



text \<open>Every job is for the step \<open>nm\<close> of the execution \<open>eid\<close>.\<close>

definition targets :: "string \<Rightarrow> string \<Rightarrow> queue_state \<Rightarrow> bool" where
  "targets eid nm s = list_all (\<lambda>j. job_executionId j = eid \<and> stepName j = nm) (heap s)"




text \<open>
  The step \<open>nm\<close> of the execution \<open>eid\<close> is in the storage \<open>sto\<close> and has no reasoning:
  \<open>processJob\<close> gets as far as the generator call.
\<close>

definition lacking_step :: "memory_storage \<Rightarrow> string \<Rightarrow> string \<Rightarrow> bool" where
  "lacking_step sto eid nm =
     (case sto eid of
        None \<Rightarrow> False
      | Some ex \<Rightarrow>
          (case find (\<lambda>x. name x = nm) (steps ex) of
             None \<Rightarrow> False
           | Some st \<Rightarrow> \<not> has_reasoning st))"

text \<open>
  The events of a queue whose generator fails with a retryable error at every
  invocation: calls of \<open>enqueue\<close> for steps that are in the storage without a reasoning,
  generator calls settling with a retryable error, retry timers firing, the clock
  moving on.
\<close>

fun failing_event :: "memory_storage \<Rightarrow> event \<Rightarrow> bool" where
  "failing_event sto (Enqueue e n) = lacking_step sto e n"
| "failing_event sto (GeneratorSettles i (Inl err)) = isRetryableError err"
| "failing_event sto (GeneratorSettles i (Inr r)) = False"
| "failing_event sto (TimerFires i) = True"
| "failing_event sto (ClockAdvances d) = True"
| "failing_event sto e = False"

text \<open>The number of invocations of the generator for the job \<open>a\<close>.\<close>

definition invocations :: "queue_state \<Rightarrow> nat \<Rightarrow> nat" where
  "invocations s a = count_list (map fst (generator_calls s)) a"

text \<open>
  The attempt counter of a job against the invocations of the generator for it: a
  pending job is before the invocation of its attempt, a job in processing and a failed
  job are past it, and a job fails in its last attempt.
\<close>

definition accounted :: "queue_state \<Rightarrow> nat \<Rightarrow> bool" where
  "accounted s a =
     (attempt (heap s ! a) \<le> max 1 (maxRetries (config s))
      \<and> (case status (heap s ! a) of
            Pending \<Rightarrow> int (invocations s a) = attempt (heap s ! a) - 1
          | Processing \<Rightarrow> int (invocations s a) = attempt (heap s ! a)
          | Failed \<Rightarrow> int (invocations s a) = attempt (heap s ! a)
                       \<and> attempt (heap s ! a) = max 1 (maxRetries (config s))
          | Completed \<Rightarrow> False))"

text \<open>
  What holds of a queue over the storage \<open>sto\<close> whose generator fails with a retryable
  error at every invocation.
\<close>

definition failing_world :: "memory_storage \<Rightarrow> queue_state \<Rightarrow> bool" where
  "failing_world sto s =
     (orderly True s \<and> storage s = sto
      \<and> list_all (\<lambda>j. lacking_step sto (job_executionId j) (stepName j)) (heap s)
      \<and> list_all (accounted s) [0..<length (heap s)]
      \<and> list_all (\<lambda>c. fst c < length (heap s)) (generator_calls s))"

text \<open>
  At every event of a run, the clock reading is one at which the retry dates are valid.
\<close>

fun dates_along :: "event list \<Rightarrow> queue_state \<Rightarrow> bool" where
  "dates_along [] s = True"
| "dates_along (e # es) s = (dates_ok s \<and> dates_along es (queue_step s e))"

text \<open>The job \<open>a\<close> has a task left: waiting, running, or behind a retry timer.\<close>

definition has_task :: "queue_state \<Rightarrow> nat \<Rightarrow> bool" where
  "has_task s a =
     (job_id (heap s ! a) \<in> set (pq_waiting s) \<or> a \<in> fst ` set (pq_running s)
      \<or> job_id (heap s ! a) \<in> snd ` set (timers s))"

text \<open>
  \<open>enqueue\<close> up to the dispatch: the new job is created and its task is waiting.
\<close>

definition enqueued :: "string \<Rightarrow> string \<Rightarrow> queue_state \<Rightarrow> queue_state" where
  "enqueued eid nm s =
     (jobs_set (new_job (uuid s (uuid_calls s)) eid nm 1 (now s))
        (s\<lparr>uuid_calls := uuid_calls s + 1\<rparr>))
       \<lparr>pq_waiting := pq_waiting s @ [uuid s (uuid_calls s)]\<rparr>"

text \<open>
  The end of a task whose generator call has settled, up to the dispatch: the job has
  failed and \<open>handleJobError\<close> has run, or its reasoning is stored and it is completed.
\<close>

definition settle ::
  "nat \<Rightarrow> js_error + string \<Rightarrow> queue_state \<Rightarrow> queue_state" where
  "settle i res s =
     (let a = fst (pq_running s ! i);
          s1 = s\<lparr>pq_running := take i (pq_running s) @ drop (Suc i) (pq_running s)\<rparr>;
          job = heap s1 ! a
      in case res of
           Inl err \<Rightarrow> handleJobError a err s1
         | Inr r \<Rightarrow>
             (case updateStepReasoning (job_executionId job) (stepName job) r (storage s1) of
                Inl err \<Rightarrow> handleJobError a err s1
              | Inr st' \<Rightarrow>
                  upd_job a (\<lambda>j. j\<lparr>status := Completed, completedAt := Some (now s)\<rparr>)
                    (s1\<lparr>storage := st'\<rparr>)))"
section \<open>Tracker: ordering and duration\<close>

lemma tracker_run_Cons: "tracker_run (c # cs) x = tracker_run cs (tracker_step x c)"
  by (simp add: tracker_run_def)

lemma opens_lookup:
  assumes "opens opn x" "nm \<in> set opn"
  shows "\<exists>st. activeSteps x nm = Some st \<and> name st = nm \<and> startedAt st \<noteq> None
           \<and> step_output st = None \<and> step_error st = None"
proof -
  from assms have "activeSteps x nm \<noteq> None" by (simp add: opens_def)
  then obtain st where st: "activeSteps x nm = Some st" by blast
  with assms(1) show ?thesis unfolding opens_def by blast
qed

lemma opens_startStep: "opens opn x \<Longrightarrow> opens (nm # opn) (startStep nm inp md t1 t2 x)"
  by (auto simp: opens_def startStep_def)

lemma opens_finish:
  "opens opn x \<Longrightarrow> opens (removeAll nm opn) (finish nm st x)"
  by (auto simp: opens_def finish_def push_step_def)

lemma steps_finish: "steps (execution (finish nm st x)) = steps (execution x) @ [st]"
  by (simp add: finish_def push_step_def)

lemma matched_steps:
  "matched opn used cs \<Longrightarrow> opens opn x \<Longrightarrow>
   \<exists>new. steps (execution (tracker_run cs x)) = steps (execution x) @ new
     \<and> map (\<lambda>st. (name st, endedAt st)) new = finishes cs
     \<and> list_all timed new"
proof (induction opn used cs arbitrary: x rule: matched.induct)
  case (1 opn used)
  then show ?case by (simp add: tracker_run_def)
next
  case (2 opn used nm inp md t1 t2 cs)
  from 2 have rest: "matched (nm # opn) (nm # used) cs" by simp
  have st: "steps (execution (startStep nm inp md t1 t2 x)) = steps (execution x)"
    by (simp add: startStep_def)
  from 2(1)[OF rest opens_startStep[OF 2(3)], of inp md t1 t2] show ?case
    by (simp add: tracker_run_Cons st)
next
  case (3 opn used nm out t cs)
  from 3 have mem: "nm \<in> set opn" and rest: "matched (removeAll nm opn) used cs"
    by simp_all
  from opens_lookup[OF 3(3) mem] obtain st where st: "activeSteps x nm = Some st"
    and nm: "name st = nm" and sa: "startedAt st \<noteq> None"
    by blast
  define st' where "st' = st\<lparr>step_output := out, endedAt := Some t,
     durationMs := duration t (startedAt st), reasoning := None\<rparr>"
  have e: "endStep nm out t x = finish nm st' x"
    by (simp add: endStep_def st st'_def)
  have o: "opens (removeAll nm opn) (finish nm st' x)" by (rule opens_finish[OF 3(3)])
  from 3(1)[OF rest o] obtain new where
    new: "steps (execution (tracker_run cs (finish nm st' x))) = steps (execution (finish nm st' x)) @ new"
      "map (\<lambda>st. (name st, endedAt st)) new = finishes cs" "list_all timed new"
    by blast
  have t: "timed st'" using sa by (auto simp: timed_def st'_def duration_def)
  have "steps (execution (tracker_run (EndStep nm out t # cs) x)) = steps (execution x) @ (st' # new)"
    using new(1) by (simp add: tracker_run_Cons e steps_finish)
  moreover have "map (\<lambda>st. (name st, endedAt st)) (st' # new) = finishes (EndStep nm out t # cs)"
    using new(2) nm by (simp add: st'_def)
  moreover have "list_all timed (st' # new)" using new(3) t by simp
  ultimately show ?case by blast
next
  case (4 opn used nm msg t cs)
  from 4 have mem: "nm \<in> set opn" and rest: "matched (removeAll nm opn) used cs"
    by simp_all
  from opens_lookup[OF 4(3) mem] obtain st where st: "activeSteps x nm = Some st"
    and nm: "name st = nm" and sa: "startedAt st \<noteq> None"
    by blast
  define st' where "st' = st\<lparr>step_error := Some msg, endedAt := Some t,
     durationMs := duration t (startedAt st), reasoning := None\<rparr>"
  have e: "errorStep nm msg t x = finish nm st' x"
    by (simp add: errorStep_def st st'_def)
  have o: "opens (removeAll nm opn) (finish nm st' x)" by (rule opens_finish[OF 4(3)])
  from 4(1)[OF rest o] obtain new where
    new: "steps (execution (tracker_run cs (finish nm st' x))) = steps (execution (finish nm st' x)) @ new"
      "map (\<lambda>st. (name st, endedAt st)) new = finishes cs" "list_all timed new"
    by blast
  have t: "timed st'" using sa by (auto simp: timed_def st'_def duration_def)
  have "steps (execution (tracker_run (ErrorStep nm msg t # cs) x)) = steps (execution x) @ (st' # new)"
    using new(1) by (simp add: tracker_run_Cons e steps_finish)
  moreover have "map (\<lambda>st. (name st, endedAt st)) (st' # new) = finishes (ErrorStep nm msg t # cs)"
    using new(2) nm by (simp add: st'_def)
  moreover have "list_all timed (st' # new)" using new(3) t by simp
  ultimately show ?case by blast
next
  case (5 opn used nm inp out md t cs)
  then show ?case by simp
qed

lemma opens_new: "opens [] (new_XRay eid md t0)"
  by (simp add: opens_def new_XRay_def)

text \<open>
  C8. For every sequence of startStep, endStep and errorStep calls in which the step
  names are distinct and every finishing call has its open step, the steps of the
  execution are exactly the finished steps in the order of their endStep or errorStep
  calls (each carrying the clock reading of that call as \<open>endedAt\<close>), and every step
  has \<open>durationMs = endedAt - startedAt\<close>.
\<close>

theorem steps_completion_order:
  assumes "matched [] [] cs"
  shows "map (\<lambda>st. (name st, endedAt st)) (steps (execution (tracker_run cs (new_XRay eid md t0))))
           = finishes cs
         \<and> list_all timed (steps (execution (tracker_run cs (new_XRay eid md t0))))"
proof -
  from matched_steps[OF assms opens_new, of eid md t0] obtain new where
    "steps (execution (tracker_run cs (new_XRay eid md t0))) = steps (execution (new_XRay eid md t0)) @ new"
    "map (\<lambda>st. (name st, endedAt st)) new = finishes cs" "list_all timed new"
    by blast
  then show ?thesis by (simp add: new_XRay_def)
qed

theorem steps_completion_order_witness:
  "matched [] [] [StartStep ''a'' (Some ''1'') None 0 0, StartStep ''b'' (Some ''2'') None 5 5,
                  EndStep ''b'' (Some ''3'') 20, ErrorStep ''a'' ''boom'' 30]
   \<and> map (\<lambda>st. (name st, endedAt st, durationMs st))
         (steps (execution (tracker_run
            [StartStep ''a'' (Some ''1'') None 0 0, StartStep ''b'' (Some ''2'') None 5 5,
             EndStep ''b'' (Some ''3'') 20, ErrorStep ''a'' ''boom'' 30]
            (new_XRay ''exec-1'' None 0))))
       = [(''b'', Some 20, Some 15), (''a'', Some 30, Some 30)]
   \<and> finishes [StartStep ''a'' (Some ''1'') None 0 0, StartStep ''b'' (Some ''2'') None 5 5,
                  EndStep ''b'' (Some ''3'') 20, ErrorStep ''a'' ''boom'' 30]
       = [(''b'', Some 20), (''a'', Some 30)]"
  using steps_completion_order
    [of "[StartStep ''a'' (Some ''1'') None 0 0, StartStep ''b'' (Some ''2'') None 5 5,
          EndStep ''b'' (Some ''3'') 20, ErrorStep ''a'' ''boom'' 30]" "''exec-1''" None 0]
  by (simp add: tracker_run_def new_XRay_def startStep_def endStep_def errorStep_def
        finish_def push_step_def duration_def)

section \<open>Tracker: the fields of a finished step\<close>

lemma fresh_active_step: "fresh_active x \<Longrightarrow> fresh_active (tracker_step x c)"
  by (cases c)
     (auto simp: fresh_active_def startStep_def endStep_def errorStep_def logStep_def
        finish_def push_step_def split: option.splits)

lemma fresh_active_run: "fresh_active x \<Longrightarrow> fresh_active (tracker_run cs x)"
  by (induction cs arbitrary: x) (simp_all add: tracker_run_def fresh_active_step)

lemma fresh_active_new: "fresh_active (new_XRay eid md t0)"
  by (simp add: fresh_active_def new_XRay_def)

text \<open>
  C9, as the code has it. In a tracker reached by any sequence of calls, finishing an
  open step with errorStep appends one step whose \<open>error\<close> is the message and whose
  \<open>output\<close> is absent, and finishing it with endStep appends one step whose \<open>error\<close>
  is absent and whose \<open>output\<close> is what was passed: the given value, or nothing when
  the output passed was \<open>undefined\<close>.
\<close>

theorem finished_step_fields:
  assumes "x = tracker_run cs (new_XRay eid md t0)" and "activeSteps x nm \<noteq> None"
  shows "(\<exists>st. steps (execution (errorStep nm msg t x)) = steps (execution x) @ [st]
              \<and> step_error st = Some msg \<and> step_output st = None)
       \<and> (\<exists>st. steps (execution (endStep nm (Some v) t x)) = steps (execution x) @ [st]
              \<and> step_output st = Some v \<and> step_error st = None)
       \<and> (\<exists>st. steps (execution (endStep nm None t x)) = steps (execution x) @ [st]
              \<and> step_output st = None \<and> step_error st = None)"
proof -
  from assms(2) obtain st0 where st0: "activeSteps x nm = Some st0" by blast
  have "fresh_active x"
    unfolding assms(1) by (rule fresh_active_run[OF fresh_active_new])
  with st0 have f: "step_output st0 = None" "step_error st0 = None"
    by (auto simp: fresh_active_def)
  show ?thesis
    using f by (simp add: errorStep_def endStep_def st0 steps_finish)
qed

theorem finished_step_fields_witness:
  "activeSteps (tracker_run [StartStep ''a'' (Some ''1'') None 0 0] (new_XRay ''exec-1'' None 0)) ''a'' \<noteq> None
   \<and> map (\<lambda>st. (step_error st, step_output st))
        (steps (execution (errorStep ''a'' ''boom'' 7
           (tracker_run [StartStep ''a'' (Some ''1'') None 0 0] (new_XRay ''exec-1'' None 0)))))
       = [(Some ''boom'', None)]
   \<and> map (\<lambda>st. (step_error st, step_output st))
        (steps (execution (endStep ''a'' (Some ''2'') 7
           (tracker_run [StartStep ''a'' (Some ''1'') None 0 0] (new_XRay ''exec-1'' None 0)))))
       = [(None, Some ''2'')]"
  using finished_step_fields
    [of "tracker_run [StartStep ''a'' (Some ''1'') None 0 0] (new_XRay ''exec-1'' None 0)"
        "[StartStep ''a'' (Some ''1'') None 0 0]" "''exec-1''" None 0 "''a''" "''boom''" 7 "''2''"]
  by (simp add: tracker_run_def new_XRay_def startStep_def endStep_def errorStep_def
        finish_def push_step_def duration_def)

text \<open>
  The claim as stated fails for an endStep called without an output: the finished step
  has neither output nor error.
\<close>

theorem endStep_undefined_output_counterexample:
  "map (\<lambda>st. (name st, step_output st, step_error st, endedAt st))
     (steps (execution (tracker_run
        [StartStep ''a'' (Some ''1'') None 0 0, EndStep ''a'' None 7] (new_XRay ''exec-1'' None 0))))
     = [(''a'', None, None, Some 7)]"
  by (simp add: tracker_run_def new_XRay_def startStep_def endStep_def finish_def push_step_def
        duration_def)
section \<open>Queue: evaluation of the model\<close>

lemmas queue_eval =
  queue_run_def queue_step_def enqueue_def enqueueExecution_def processExecution_def
  new_ReasoningQueue_def pq_add_def tryToStartAnother.simps processJob_def jobs_set_def
  new_job_def upd_job_def getExecutionById_def has_reasoning_def resolve_idle_def pq_idle_def
  generator_settles_def handleJobError_def isRetryableError_def retryablePatterns_def
  Error_def errorMessage_def timer_fires_def retry_delay_def updateStepReasoning_def
  clear_def getStats_def job_values_def saveExecution_def toISOString_def date_valid_def Let_def
  step_fetch_def exec_1_def sample_ids_def short_table_config_def ETIMEDOUT_def
  DEFAULT_REASONING_CONFIG_def sample_queue_def step_blank_def exec_blank_def blank_queue_def
  no_retry_queue_def

section \<open>Queue: what the dispatch of tasks preserves\<close>

lemma map_key_update:
  "g (f (xs ! a)) = g (xs ! a) \<Longrightarrow> map g (xs[a := f (xs ! a)]) = map g xs"
  by (cases "a < length xs") (simp_all add: map_update list_update_same_conv list_update_beyond)

lemma shape_fields [simp]:
  "shape (s\<lparr>timers := x1\<rparr>) = shape s" "shape (s\<lparr>pq_waiting := x2\<rparr>) = shape s"
  "shape (s\<lparr>pq_running := x3\<rparr>) = shape s" "shape (s\<lparr>generator_calls := x4\<rparr>) = shape s"
  "shape (s\<lparr>storage := x5\<rparr>) = shape s" "shape (s\<lparr>uuid_calls := x6\<rparr>) = shape s"
  "shape (s\<lparr>now := x7\<rparr>) = shape s" "shape (s\<lparr>awaiting_idle := x8\<rparr>) = shape s"
  "shape (s\<lparr>returned := x9\<rparr>) = shape s" "shape (s\<lparr>skipped := x10\<rparr>) = shape s"
  by (simp_all add: shape_def)

lemma shape_upd_job: "(\<And>j. job_key (f j) = job_key j) \<Longrightarrow> shape (upd_job a f s) = shape s"
  by (simp add: shape_def upd_job_def map_key_update)

lemma shape_handleJobError: "shape (handleJobError a err s) = shape s"
  by (simp add: handleJobError_def Let_def shape_upd_job job_key_def split: option.splits)

lemma shape_processJob: "shape (processJob jobId s) = shape s"
  by (simp add: processJob_def Let_def shape_handleJobError shape_upd_job job_key_def
        split: option.splits)

lemma shape_tryToStartAnother: "shape (tryToStartAnother s) = shape s"
proof (induction s rule: tryToStartAnother.induct)
  case (1 s)
  show ?case
  proof (cases "pq_waiting s")
    case Nil
    then show ?thesis by (simp add: tryToStartAnother.simps[of s])
  next
    case (Cons jobId rest)
    show ?thesis
    proof (cases "length (pq_running s) < concurrency (config s)")
      case True
      with Cons 1 have "shape (tryToStartAnother s) = shape (processJob jobId (s\<lparr>pq_waiting := rest\<rparr>))"
        by (simp add: tryToStartAnother.simps[of s])
      then show ?thesis by (simp add: shape_processJob)
    next
      case False
      with Cons show ?thesis by (simp add: tryToStartAnother.simps[of s])
    qed
  qed
qed

lemma shape_pq_add: "shape (pq_add jobId s) = shape s"
  by (simp add: pq_add_def shape_tryToStartAnother)

lemma shape_resolve_idle: "shape (resolve_idle s) = shape s"
  by (simp add: resolve_idle_def)

lemma shape_generator_settles: "shape (generator_settles i res s) = shape s"
  by (simp add: generator_settles_def Let_def shape_tryToStartAnother shape_handleJobError
        shape_upd_job job_key_def split: sum.splits)

lemma shape_timer_fires: "shape (timer_fires i s) = shape s"
  by (simp add: timer_fires_def shape_pq_add)

lemma fixed_fields [simp]:
  "fixed (s\<lparr>timers := x1\<rparr>) = fixed s" "fixed (s\<lparr>pq_waiting := x2\<rparr>) = fixed s"
  "fixed (s\<lparr>pq_running := x3\<rparr>) = fixed s" "fixed (s\<lparr>generator_calls := x4\<rparr>) = fixed s"
  "fixed (s\<lparr>heap := x5\<rparr>) = fixed s" "fixed (s\<lparr>jobs := x6\<rparr>) = fixed s"
  "fixed (s\<lparr>awaiting_idle := x8\<rparr>) = fixed s" "fixed (s\<lparr>returned := x9\<rparr>) = fixed s"
  "fixed (s\<lparr>skipped := x10\<rparr>) = fixed s"
  by (simp_all add: fixed_def)

lemma fixed_upd_job [simp]: "fixed (upd_job a f s) = fixed s"
  by (simp add: upd_job_def)

lemma fixed_handleJobError [simp]: "fixed (handleJobError a err s) = fixed s"
  by (simp add: handleJobError_def Let_def split: option.splits)

lemma fixed_processJob [simp]: "fixed (processJob jobId s) = fixed s"
  by (simp add: processJob_def Let_def split: option.splits)

lemma fixed_tryToStartAnother [simp]: "fixed (tryToStartAnother s) = fixed s"
proof (induction s rule: tryToStartAnother.induct)
  case (1 s)
  show ?case
  proof (cases "pq_waiting s")
    case Nil
    then show ?thesis by (simp add: tryToStartAnother.simps[of s])
  next
    case (Cons jobId rest)
    show ?thesis
    proof (cases "length (pq_running s) < concurrency (config s)")
      case True
      with Cons 1 have "fixed (tryToStartAnother s) = fixed (processJob jobId (s\<lparr>pq_waiting := rest\<rparr>))"
        by (simp add: tryToStartAnother.simps[of s])
      then show ?thesis by simp
    next
      case False
      with Cons show ?thesis by (simp add: tryToStartAnother.simps[of s])
    qed
  qed
qed

lemma fixed_pq_add [simp]: "fixed (pq_add jobId s) = fixed s"
  by (simp add: pq_add_def)




lemma processJob_short_circuit:
  assumes "map_of (jobs s) jobId = Some a" and "a < length (heap s)"
    and "storage s (job_executionId (heap s ! a)) = Some ex"
    and "find (\<lambda>st. name st = stepName (heap s ! a)) (steps ex) = Some st"
    and "has_reasoning st"
  shows "status (heap (processJob jobId s) ! a) = Completed"
    and "generator_calls (processJob jobId s) = generator_calls s"
    and "pq_running (processJob jobId s) = pq_running s"
    and "timers (processJob jobId s) = timers s"
    and "storage (processJob jobId s) = storage s"
    and "length (heap (processJob jobId s)) = length (heap s)"
  using assms by (simp_all add: processJob_def Let_def upd_job_def getExecutionById_def)

lemma queue_run_Nil: "queue_run [] s = s"
  by (simp add: queue_run_def)

section \<open>Queue: statistics\<close>

lemma status_partition:
  "length (filter (\<lambda>j. status j = Pending) js) + length (filter (\<lambda>j. status j = Processing) js)
   + length (filter (\<lambda>j. status j = Completed) js) + length (filter (\<lambda>j. status j = Failed) js)
   = length js"
proof (induction js)
  case Nil
  then show ?case by simp
next
  case (Cons j js)
  then show ?case by (cases "status j") simp_all
qed

lemma count_job_values:
  "length (filter (\<lambda>j. status j = x) (job_values s))
     = length (filter (\<lambda>(k, a). status (heap s ! a) = x) (jobs s))"
  by (simp add: job_values_def filter_map comp_def case_prod_unfold)

text \<open>
  C10. In every state the queue reaches from its construction, by any sequence of
  events, each of the four counts of getStats is the number of entries of the job map
  whose job has that status, totalJobs is the number of entries of the map, and the
  four counts add up to totalJobs: every job of the map has exactly one of the four
  statuses.
\<close>

theorem stats_partition:
  "pending (getStats (queue_run es (new_ReasoningQueue st cfg ids t)))
     = length (filter (\<lambda>(k, a). status (heap (queue_run es (new_ReasoningQueue st cfg ids t)) ! a) = Pending)
                 (jobs (queue_run es (new_ReasoningQueue st cfg ids t))))
   \<and> processing (getStats (queue_run es (new_ReasoningQueue st cfg ids t)))
     = length (filter (\<lambda>(k, a). status (heap (queue_run es (new_ReasoningQueue st cfg ids t)) ! a) = Processing)
                 (jobs (queue_run es (new_ReasoningQueue st cfg ids t))))
   \<and> completed (getStats (queue_run es (new_ReasoningQueue st cfg ids t)))
     = length (filter (\<lambda>(k, a). status (heap (queue_run es (new_ReasoningQueue st cfg ids t)) ! a) = Completed)
                 (jobs (queue_run es (new_ReasoningQueue st cfg ids t))))
   \<and> failed (getStats (queue_run es (new_ReasoningQueue st cfg ids t)))
     = length (filter (\<lambda>(k, a). status (heap (queue_run es (new_ReasoningQueue st cfg ids t)) ! a) = Failed)
                 (jobs (queue_run es (new_ReasoningQueue st cfg ids t))))
   \<and> totalJobs (getStats (queue_run es (new_ReasoningQueue st cfg ids t)))
     = length (jobs (queue_run es (new_ReasoningQueue st cfg ids t)))
   \<and> pending (getStats (queue_run es (new_ReasoningQueue st cfg ids t)))
     + processing (getStats (queue_run es (new_ReasoningQueue st cfg ids t)))
     + completed (getStats (queue_run es (new_ReasoningQueue st cfg ids t)))
     + failed (getStats (queue_run es (new_ReasoningQueue st cfg ids t)))
     = totalJobs (getStats (queue_run es (new_ReasoningQueue st cfg ids t)))"
proof -
  let ?s = "queue_run es (new_ReasoningQueue st cfg ids t)"
  have t: "totalJobs (getStats ?s) = length (jobs ?s)"
    by (simp add: getStats_def job_values_def)
  have c: "pending (getStats ?s) = length (filter (\<lambda>(k, a). status (heap ?s ! a) = Pending) (jobs ?s))"
    "processing (getStats ?s) = length (filter (\<lambda>(k, a). status (heap ?s ! a) = Processing) (jobs ?s))"
    "completed (getStats ?s) = length (filter (\<lambda>(k, a). status (heap ?s ! a) = Completed) (jobs ?s))"
    "failed (getStats ?s) = length (filter (\<lambda>(k, a). status (heap ?s ! a) = Failed) (jobs ?s))"
    by (simp_all add: getStats_def count_job_values)
  have p: "pending (getStats ?s) + processing (getStats ?s) + completed (getStats ?s)
      + failed (getStats ?s) = totalJobs (getStats ?s)"
    by (simp add: getStats_def status_partition)
  show ?thesis using t c p by simp
qed

text \<open>
  A state with one job in each status: four jobs for one step, of which the first
  fails for good, the second waits for its retry, the third is completed and the fourth
  is at its generator call.
\<close>

theorem stats_partition_witness:
  "map (\<lambda>(k, a). (k, status (heap (queue_run
        [Enqueue ''exec-1'' ''fetch'', Enqueue ''exec-1'' ''fetch'', Enqueue ''exec-1'' ''fetch'',
         Enqueue ''exec-1'' ''fetch'', GeneratorSettles 0 (Inl (Error ''invalid input format'')),
         GeneratorSettles 0 (Inl ETIMEDOUT), GeneratorSettles 0 (Inr ''Fetched 3 results'')]
        sample_queue) ! a)))
      (jobs (queue_run
        [Enqueue ''exec-1'' ''fetch'', Enqueue ''exec-1'' ''fetch'', Enqueue ''exec-1'' ''fetch'',
         Enqueue ''exec-1'' ''fetch'', GeneratorSettles 0 (Inl (Error ''invalid input format'')),
         GeneratorSettles 0 (Inl ETIMEDOUT), GeneratorSettles 0 (Inr ''Fetched 3 results'')]
        sample_queue))
     = [(''j'', Failed), (''jj'', Pending), (''jjj'', Completed), (''jjjj'', Processing)]
   \<and> getStats (queue_run
        [Enqueue ''exec-1'' ''fetch'', Enqueue ''exec-1'' ''fetch'', Enqueue ''exec-1'' ''fetch'',
         Enqueue ''exec-1'' ''fetch'', GeneratorSettles 0 (Inl (Error ''invalid input format'')),
         GeneratorSettles 0 (Inl ETIMEDOUT), GeneratorSettles 0 (Inr ''Fetched 3 results'')]
        sample_queue)
     = \<lparr>pending = 1, processing = 1, completed = 1, failed = 1, totalJobs = 4\<rparr>"
proof -
  let ?es = "[Enqueue ''exec-1'' ''fetch'', Enqueue ''exec-1'' ''fetch'', Enqueue ''exec-1'' ''fetch'',
         Enqueue ''exec-1'' ''fetch'', GeneratorSettles 0 (Inl (Error ''invalid input format'')),
         GeneratorSettles 0 (Inl ETIMEDOUT), GeneratorSettles 0 (Inr ''Fetched 3 results'')]"
  have j: "jobs (queue_run ?es sample_queue) = [(''j'', 0), (''jj'', 1), (''jjj'', 2), (''jjjj'', 3)]"
    "map status (heap (queue_run ?es sample_queue)) = [Failed, Pending, Completed, Processing]"
    by (simp_all add: queue_eval)
  have n: "status (heap (queue_run ?es sample_queue) ! 0) = Failed"
    "status (heap (queue_run ?es sample_queue) ! Suc 0) = Pending"
    "status (heap (queue_run ?es sample_queue) ! 2) = Completed"
    "status (heap (queue_run ?es sample_queue) ! 3) = Processing"
    by (simp_all add: queue_eval)
  note S = stats_partition[of ?es "[''exec-1'' \<mapsto> exec_1]" DEFAULT_REASONING_CONFIG sample_ids 0,
      folded sample_queue_def]
  have g: "pending (getStats (queue_run ?es sample_queue)) = 1"
    "processing (getStats (queue_run ?es sample_queue)) = 1"
    "completed (getStats (queue_run ?es sample_queue)) = 1"
    "failed (getStats (queue_run ?es sample_queue)) = 1"
    "totalJobs (getStats (queue_run ?es sample_queue)) = 4"
    using S by (simp_all add: j(1) n)
  have "getStats (queue_run ?es sample_queue)
     = \<lparr>pending = 1, processing = 1, completed = 1, failed = 1, totalJobs = 4\<rparr>"
    using g by (cases "getStats (queue_run ?es sample_queue)") simp
  then show ?thesis by (simp add: j(1) n)
qed

section \<open>Queue: the backoff delay\<close>

lemma retry_delay_beyond: "int (length (retryDelays cfg)) < att \<Longrightarrow> retry_delay cfg att = 8000"
  by (simp add: retry_delay_def Let_def)

text \<open>
  C4, as the code has it. When a job fails with a retryable error, has attempts left and
  its attempt index exceeds the length of retryDelays, the backoff delay is 8000 ms,
  whatever the table holds: the job is pending again, its attempt is incremented, and
  with \<open>now + 8000\<close> a valid date the timer is set to 8000 and nextRetryAt is
  \<open>now + 8000\<close>. (A clock within eight seconds of the end of the Date range makes
  \<open>toISOString\<close> throw before the timer is set.)
\<close>

theorem backoff_beyond_table:
  assumes "a < length (heap s)" and "isRetryableError err"
    and "attempt (heap s ! a) < maxRetries (config s)"
    and "int (length (retryDelays (config s))) < attempt (heap s ! a)"
  shows "retry_delay (config s) (attempt (heap s ! a)) = 8000
       \<and> status (heap (handleJobError a err s) ! a) = Pending
       \<and> attempt (heap (handleJobError a err s) ! a) = attempt (heap s ! a) + 1
       \<and> (date_valid (now s + 8000) \<longrightarrow>
            timers (handleJobError a err s) = timers s @ [(8000, job_id (heap s ! a))]
          \<and> nextRetryAt (heap (handleJobError a err s) ! a) = Some (now s + 8000))
       \<and> (\<not> date_valid (now s + 8000) \<longrightarrow>
            timers (handleJobError a err s) = timers s
          \<and> nextRetryAt (heap (handleJobError a err s) ! a) = nextRetryAt (heap s ! a))"
  using assms
  by (simp add: handleJobError_def Let_def upd_job_def retry_delay_beyond toISOString_def)

lemma third_attempt_eval:
  "map (\<lambda>j. (job_id j, status j, attempt j)) (heap third_attempt) = [(''j'', Processing, 3)]"
  "timers third_attempt = []" "config third_attempt = short_table_config"
  "now third_attempt = 0" "map fst (pq_running third_attempt) = [0]"
  by (simp_all add: third_attempt_def queue_eval)

theorem backoff_beyond_table_witness:
  "0 < length (heap third_attempt) \<and> isRetryableError ETIMEDOUT
   \<and> attempt (heap third_attempt ! 0) < maxRetries (config third_attempt)
   \<and> int (length (retryDelays (config third_attempt))) < attempt (heap third_attempt ! 0)
   \<and> date_valid (now third_attempt + 8000)
   \<and> retry_delay (config third_attempt) (attempt (heap third_attempt ! 0)) = 8000
   \<and> status (heap (handleJobError 0 ETIMEDOUT third_attempt) ! 0) = Pending
   \<and> timers (handleJobError 0 ETIMEDOUT third_attempt) = [(8000, ''j'')]
   \<and> nextRetryAt (heap (handleJobError 0 ETIMEDOUT third_attempt) ! 0) = Some 8000
   \<and> attempt (heap (handleJobError 0 ETIMEDOUT third_attempt) ! 0) = 4"
proof -
  have h: "heap third_attempt ! 0 = hd (heap third_attempt)" "heap third_attempt \<noteq> []"
    using third_attempt_eval(1) by (auto simp: hd_conv_nth)
  have j: "job_id (hd (heap third_attempt)) = ''j''" "attempt (hd (heap third_attempt)) = 3"
    using third_attempt_eval(1) by (cases "heap third_attempt"; simp)+
  have r: "isRetryableError ETIMEDOUT"
    by (simp add: isRetryableError_def retryablePatterns_def errorMessage_def Error_def ETIMEDOUT_def)
  show ?thesis
    using backoff_beyond_table[of 0 third_attempt ETIMEDOUT] h j r
    by (simp add: third_attempt_eval short_table_config_def date_valid_def)
qed

text \<open>
  The claim as stated fails there: the last entry of the table is 200, the delay of the
  third retry is 8000.
\<close>

theorem backoff_last_entry_counterexample:
  "retryDelays (config third_attempt) = [100, 200]
   \<and> last (retryDelays (config third_attempt)) = 200
   \<and> attempt (heap third_attempt ! 0) = 3
   \<and> map fst (timers (queue_step third_attempt (GeneratorSettles 0 (Inl ETIMEDOUT)))) = [8000]"
  by (simp add: third_attempt_def queue_eval)

section \<open>Queue: a missing execution or step\<close>

text \<open>
  C1, evaluated. The execution id \<open>exec-429\<close> is not in the storage. The job is not
  failed: the message \<open>Execution exec-429 not found\<close> contains the pattern \<open>429\<close>, so
  the job is pending again in its second attempt and a retry timer is set. The same
  happens for a step name such as \<open>check_timeout\<close> that the execution does not have.
\<close>

theorem missing_execution_retried:
  "map (\<lambda>j. (status j, attempt j, job_error j))
       (heap (queue_run [Enqueue ''exec-429'' ''fetch'']
          (new_ReasoningQueue [''exec-1'' \<mapsto> exec_1] DEFAULT_REASONING_CONFIG sample_ids 0)))
     = [(Pending, 2, Some ''Execution exec-429 not found'')]
   \<and> timers (queue_run [Enqueue ''exec-429'' ''fetch'']
          (new_ReasoningQueue [''exec-1'' \<mapsto> exec_1] DEFAULT_REASONING_CONFIG sample_ids 0))
     = [(1000, ''j'')]
   \<and> map (\<lambda>j. (status j, attempt j, job_error j))
       (heap (queue_run [Enqueue ''exec-1'' ''check_timeout'']
          (new_ReasoningQueue [''exec-1'' \<mapsto> exec_1] DEFAULT_REASONING_CONFIG sample_ids 0)))
     = [(Pending, 2, Some ''Step check_timeout not found in execution exec-1'')]
   \<and> timers (queue_run [Enqueue ''exec-1'' ''check_timeout'']
          (new_ReasoningQueue [''exec-1'' \<mapsto> exec_1] DEFAULT_REASONING_CONFIG sample_ids 0))
     = [(1000, ''j'')]"
  by (simp add: queue_eval)

section \<open>Queue: processExecution\<close>

text \<open>
  C3, evaluated. processExecution is called for \<open>exec-1\<close> and the generator fails with
  ETIMEDOUT. The PQueue is idle then, so processExecution returns (its batch is the job
  \<open>j\<close>), while the job is pending, in its second attempt, with its retry timer of 1000 ms
  not yet fired.
\<close>

theorem processExecution_returns_before_retry:
  "returned (queue_run [ProcessExecution ''exec-1'', GeneratorSettles 0 (Inl ETIMEDOUT)]
       (new_ReasoningQueue [''exec-1'' \<mapsto> exec_1] DEFAULT_REASONING_CONFIG sample_ids 0))
     = [[''j'']]
   \<and> map (\<lambda>j. (job_id j, status j, attempt j))
       (heap (queue_run [ProcessExecution ''exec-1'', GeneratorSettles 0 (Inl ETIMEDOUT)]
          (new_ReasoningQueue [''exec-1'' \<mapsto> exec_1] DEFAULT_REASONING_CONFIG sample_ids 0)))
     = [(''j'', Pending, 2)]
   \<and> timers (queue_run [ProcessExecution ''exec-1'', GeneratorSettles 0 (Inl ETIMEDOUT)]
          (new_ReasoningQueue [''exec-1'' \<mapsto> exec_1] DEFAULT_REASONING_CONFIG sample_ids 0))
     = [(1000, ''j'')]
   \<and> pending (getStats (queue_run [ProcessExecution ''exec-1'', GeneratorSettles 0 (Inl ETIMEDOUT)]
          (new_ReasoningQueue [''exec-1'' \<mapsto> exec_1] DEFAULT_REASONING_CONFIG sample_ids 0)))
     = 1"
  by (simp add: queue_eval)

section \<open>Queue: enqueueExecution\<close>

lemma enqueue_effect:
  assumes "enqueue eid nm s = (jid, s')"
  shows "jid = uuid s (uuid_calls s)"
    and "shape s' = (AList.update jid (length (heap s)) (jobs s), map job_key (heap s) @ [(jid, eid, nm)])"
    and "fixed s' = (config s, uuid s, Suc (uuid_calls s), now s, storage s)"
  using assms
  by (auto simp: enqueue_def Let_def shape_pq_add)
     (simp_all add: shape_def fixed_def jobs_set_def new_job_def job_key_def)

lemma enqueue_steps_each:
  "enqueue_steps eid sts acc s =
     (case enqueue_each eid (map name (lacking sts)) s of (js, s') \<Rightarrow> (acc @ js, s'))"
  by (induction sts arbitrary: acc s) (simp_all add: lacking_def split: prod.splits)

lemma enqueue_each_effect:
  "enqueue_each eid nms s = (js, s') \<Longrightarrow>
     map job_key (heap s') = map job_key (heap s) @ map (\<lambda>(j, nm). (j, eid, nm)) (zip js nms)
     \<and> length js = length nms
     \<and> uuid s' = uuid s \<and> uuid_calls s' = uuid_calls s + length nms \<and> storage s' = storage s"
proof (induction nms arbitrary: s js s')
  case Nil
  then show ?case by simp
next
  case (Cons nm nms)
  obtain j s1 where e: "enqueue eid nm s = (j, s1)" by (cases "enqueue eid nm s")
  obtain js1 s2 where r: "enqueue_each eid nms s1 = (js1, s2)" by (cases "enqueue_each eid nms s1")
  from Cons.prems e r have eq: "js = j # js1" "s' = s2" by simp_all
  note ef = enqueue_effect[OF e]
  from ef(2) have h1: "map job_key (heap s1) = map job_key (heap s) @ [(j, eid, nm)]"
    by (simp add: shape_def)
  from ef(3) have f1: "uuid s1 = uuid s" "uuid_calls s1 = Suc (uuid_calls s)" "storage s1 = storage s"
    by (simp_all add: fixed_def)
  note ih = Cons.IH[OF r]
  show ?case
    using ih h1 f1 by (simp add: eq)
qed

text \<open>
  C7, as the code has it. enqueueExecution fails with the error
  \<open>Execution <id> not found\<close> when the storage has no execution for the id. Otherwise it
  calls enqueue exactly once, in order, for every step whose reasoning is absent or
  empty, and for no other step; the jobs it creates carry the execution id and the
  names of those steps, and it returns their ids (the empty list when there is no such
  step).
\<close>

theorem enqueueExecution_enqueues_lacking:
  "(storage s eid = None \<longrightarrow>
      enqueueExecution eid s = Inl (Error (''Execution '' @ eid @ '' not found'')))
   \<and> (\<forall>ex. storage s eid = Some ex \<longrightarrow>
        (\<exists>jobIds s'. enqueueExecution eid s = Inr (jobIds, s')
           \<and> (jobIds, s') = enqueue_each eid (map name (lacking (steps ex))) s
           \<and> length jobIds = length (lacking (steps ex))
           \<and> map job_key (drop (length (heap s)) (heap s'))
               = map (\<lambda>(j, st). (j, eid, name st)) (zip jobIds (lacking (steps ex)))))"
proof (intro conjI allI impI)
  assume "storage s eid = None"
  then show "enqueueExecution eid s = Inl (Error (''Execution '' @ eid @ '' not found''))"
    by (simp add: enqueueExecution_def getExecutionById_def)
next
  fix ex assume ex: "storage s eid = Some ex"
  obtain js s' where r: "enqueue_each eid (map name (lacking (steps ex))) s = (js, s')"
    by (cases "enqueue_each eid (map name (lacking (steps ex))) s")
  have e: "enqueueExecution eid s = Inr (js, s')"
    by (simp add: enqueueExecution_def getExecutionById_def ex enqueue_steps_each r)
  note ef = enqueue_each_effect[OF r]
  from ef have len: "length js = length (lacking (steps ex))" by simp
  from ef have "drop (length (heap s)) (map job_key (heap s'))
      = map (\<lambda>(j, nm). (j, eid, nm)) (zip js (map name (lacking (steps ex))))"
    by simp
  then have keys: "map job_key (drop (length (heap s)) (heap s'))
      = map (\<lambda>(j, st). (j, eid, name st)) (zip js (lacking (steps ex)))"
    by (simp add: drop_map zip_map2 case_prod_beta comp_def)
  show "\<exists>jobIds s'. enqueueExecution eid s = Inr (jobIds, s')
           \<and> (jobIds, s') = enqueue_each eid (map name (lacking (steps ex))) s
           \<and> length jobIds = length (lacking (steps ex))
           \<and> map job_key (drop (length (heap s)) (heap s'))
               = map (\<lambda>(j, st). (j, eid, name st)) (zip jobIds (lacking (steps ex)))"
    using e r len keys by simp
qed

theorem enqueueExecution_enqueues_lacking_witness:
  "storage sample_queue ''exec-2'' = None
   \<and> enqueueExecution ''exec-2'' sample_queue = Inl (Error ''Execution exec-2 not found'')
   \<and> storage sample_queue ''exec-1'' = Some exec_1
   \<and> lacking (steps exec_1) = [step_fetch]
   \<and> fst (projr (enqueueExecution ''exec-1'' sample_queue)) = [''j'']
   \<and> map job_key (heap (snd (projr (enqueueExecution ''exec-1'' sample_queue))))
       = [(''j'', ''exec-1'', ''fetch'')]"
proof -
  have s: "storage sample_queue ''exec-2'' = None" "storage sample_queue ''exec-1'' = Some exec_1"
    "heap sample_queue = []"
    by (simp_all add: sample_queue_def new_ReasoningQueue_def)
  have l: "lacking (steps exec_1) = [step_fetch]"
    by (simp add: lacking_def exec_1_def step_fetch_def has_reasoning_def)
  from enqueueExecution_enqueues_lacking[of sample_queue "''exec-2''"] s(1)
  have a: "enqueueExecution ''exec-2'' sample_queue = Inl (Error ''Execution exec-2 not found'')"
    by simp
  from enqueueExecution_enqueues_lacking[of sample_queue "''exec-1''"] s(2,3) l
  obtain jobIds s' where b: "enqueueExecution ''exec-1'' sample_queue = Inr (jobIds, s')"
    "(jobIds, s') = enqueue_each ''exec-1'' [name step_fetch] sample_queue"
    "map job_key (heap s') = map (\<lambda>(j, st). (j, ''exec-1'', name st)) (zip jobIds [step_fetch])"
    by auto
  have "fst (enqueue_each ''exec-1'' [name step_fetch] sample_queue) = [''j'']"
    by (simp add: queue_eval split: prod.splits)
  with b(2) have j: "jobIds = [''j'']" by (metis fst_conv)
  show ?thesis using s l a b(1,3) j by (simp add: step_fetch_def)
qed

text \<open>
  The claim as stated fails for a step whose reasoning is the empty string: the step
  has a reasoning value, and enqueueExecution creates a job for it and returns its id.
\<close>

theorem enqueueExecution_blank_reasoning_counterexample:
  "map reasoning (steps exec_blank) = [Some []]
   \<and> storage blank_queue ''exec-1'' = Some exec_blank
   \<and> fst (projr (enqueueExecution ''exec-1'' blank_queue)) = [''j'']
   \<and> map stepName (heap (snd (projr (enqueueExecution ''exec-1'' blank_queue)))) = [''fetch'']"
  by (simp add: queue_eval)

section \<open>Queue: totalJobs\<close>

lemma shape_job_ids: "shape s' = shape s \<Longrightarrow> job_ids s' = job_ids s \<and> jobs s' = jobs s"
proof -
  assume a: "shape s' = shape s"
  have "job_ids s' = map fst (map job_key (heap s'))" by (simp add: job_ids_def job_key_def comp_def)
  also have "\<dots> = map fst (map job_key (heap s))" using a by (simp add: shape_def)
  also have "\<dots> = job_ids s" by (simp add: job_ids_def job_key_def comp_def)
  finally show ?thesis using a by (simp add: shape_def)
qed

lemma shape_tracked: "shape s' = shape s \<Longrightarrow> tracked b s \<Longrightarrow> tracked b s'"
proof -
  assume a: "shape s' = shape s" and t: "tracked b s"
  from shape_job_ids[OF a] have i: "job_ids s' = job_ids s" "jobs s' = jobs s" by simp_all
  from i(1) have "length (heap s') = length (heap s)"
    by (metis job_ids_def length_map)
  with t i show ?thesis by (simp add: tracked_def)
qed

lemma update_fresh: "k \<notin> fst ` set al \<Longrightarrow> AList.update k v al = al @ [(k, v)]"
  by (induction al) auto

lemma job_ids_jobs_set: "job_ids (jobs_set job s) = job_ids s @ [job_id job]"
  by (simp add: job_ids_def jobs_set_def)

lemma tracked_jobs_set:
  assumes "tracked b s" and "job_id job \<notin> set (job_ids s)"
  shows "tracked b (jobs_set job s)"
proof -
  have "set (map fst (jobs s)) \<subseteq> set (job_ids s)"
    using assms(1) by (simp add: tracked_def set_drop_subset)
  with assms(2) have "job_id job \<notin> fst ` set (jobs s)" by auto
  then have "AList.update (job_id job) (length (heap s)) (jobs s) = jobs s @ [(job_id job, length (heap s))]"
    by (rule update_fresh)
  with assms(1) show ?thesis
    by (simp add: tracked_def jobs_set_def job_ids_def)
qed

lemma job_ids_add: "job_ids (pq_add jobId (jobs_set job s)) = job_ids s @ [job_id job]"
  using shape_job_ids[OF shape_pq_add, of jobId "jobs_set job s"] by (simp add: job_ids_jobs_set)

lemma tracked_add:
  assumes "tracked b s" and "distinct (job_ids (pq_add jobId (jobs_set job s)))"
  shows "tracked b (pq_add jobId (jobs_set job s))"
proof -
  from assms(2) have "job_id job \<notin> set (job_ids s)" by (simp add: job_ids_add)
  from tracked_jobs_set[OF assms(1) this] show ?thesis
    by (rule shape_tracked[OF shape_pq_add])
qed

lemma tracked_uuid_calls [simp]: "tracked b (s\<lparr>uuid_calls := n\<rparr>) = tracked b s"
  by (simp add: tracked_def job_ids_def)

lemma job_ids_uuid_calls [simp]: "job_ids (s\<lparr>uuid_calls := n\<rparr>) = job_ids s"
  by (simp add: job_ids_def)

lemma job_ids_enqueue: "\<exists>new. job_ids (snd (enqueue eid nm s)) = job_ids s @ new"
  by (simp add: enqueue_def Let_def job_ids_add)

lemma tracked_enqueue:
  "tracked b s \<Longrightarrow> distinct (job_ids (snd (enqueue eid nm s))) \<Longrightarrow> tracked b (snd (enqueue eid nm s))"
  by (simp add: enqueue_def Let_def tracked_add)

lemma job_ids_enqueue_steps: "\<exists>new. job_ids (snd (enqueue_steps eid sts acc s)) = job_ids s @ new"
proof (induction sts arbitrary: acc s)
  case Nil
  then show ?case by simp
next
  case (Cons st sts)
  show ?case
  proof (cases "has_reasoning st")
    case True
    then show ?thesis using Cons.IH by simp
  next
    case False
    obtain j s1 where e: "enqueue eid (name st) s = (j, s1)" by (cases "enqueue eid (name st) s")
    from job_ids_enqueue[of eid "name st" s] e obtain n1 where n1: "job_ids s1 = job_ids s @ n1"
      by auto
    from Cons.IH[of "acc @ [j]" s1] obtain n2 where
      "job_ids (snd (enqueue_steps eid sts (acc @ [j]) s1)) = job_ids s1 @ n2" by blast
    with n1 False e show ?thesis by simp
  qed
qed

lemma tracked_enqueue_steps:
  "tracked b s \<Longrightarrow> distinct (job_ids (snd (enqueue_steps eid sts acc s)))
     \<Longrightarrow> tracked b (snd (enqueue_steps eid sts acc s))"
proof (induction sts arbitrary: acc s)
  case Nil
  then show ?case by simp
next
  case (Cons st sts)
  show ?case
  proof (cases "has_reasoning st")
    case True
    then show ?thesis using Cons by simp
  next
    case False
    obtain j s1 where e: "enqueue eid (name st) s = (j, s1)" by (cases "enqueue eid (name st) s")
    have r: "enqueue_steps eid (st # sts) acc s = enqueue_steps eid sts (acc @ [j]) s1"
      using False e by simp
    from job_ids_enqueue_steps[of eid sts "acc @ [j]" s1] obtain n2 where
      "job_ids (snd (enqueue_steps eid sts (acc @ [j]) s1)) = job_ids s1 @ n2" by blast
    with Cons.prems(2) r have d1: "distinct (job_ids s1)" by simp
    have "tracked b s1" using tracked_enqueue[OF Cons.prems(1), of eid "name st"] d1 e by simp
    from Cons.IH[OF this] Cons.prems(2) r show ?thesis by simp
  qed
qed

lemma job_ids_loadPendingJobs: "\<exists>new. job_ids (loadPendingJobs ds s) = job_ids s @ new"
proof (induction ds arbitrary: s)
  case Nil
  then show ?case by simp
next
  case (Cons d ds)
  define s1 where "s1 = pq_add (db_id d)
          (jobs_set (new_job (db_id d) (db_executionId d) (db_stepName d) (db_attempts d)
                       (db_createdAt d)) s)"
  from Cons.IH[of s1] obtain n2 where "job_ids (loadPendingJobs ds s1) = job_ids s1 @ n2" by blast
  then show ?case by (simp add: s1_def job_ids_add)
qed

lemma tracked_loadPendingJobs:
  "tracked b s \<Longrightarrow> distinct (job_ids (loadPendingJobs ds s)) \<Longrightarrow> tracked b (loadPendingJobs ds s)"
proof (induction ds arbitrary: s)
  case Nil
  then show ?case by simp
next
  case (Cons d ds)
  define s1 where "s1 = pq_add (db_id d)
          (jobs_set (new_job (db_id d) (db_executionId d) (db_stepName d) (db_attempts d)
                       (db_createdAt d)) s)"
  have r: "loadPendingJobs (d # ds) s = loadPendingJobs ds s1" by (simp add: s1_def)
  from job_ids_loadPendingJobs[of ds s1] obtain n2 where
    "job_ids (loadPendingJobs ds s1) = job_ids s1 @ n2" by blast
  with Cons.prems(2) r have d1: "distinct (job_ids s1)" by simp
  have "tracked b s1" unfolding s1_def
    by (rule tracked_add[OF Cons.prems(1)]) (use d1 in \<open>simp add: s1_def\<close>)
  from Cons.IH[OF this] Cons.prems(2) r show ?case by simp
qed

lemma shape_keep:
  assumes "shape s' = shape s"
  shows "\<exists>new. job_ids s' = job_ids s @ new"
proof -
  from shape_job_ids[OF assms] have "job_ids s' = job_ids s @ []" by simp
  then show ?thesis by (rule exI)
qed

lemma job_ids_fields [simp]:
  "job_ids (s\<lparr>returned := x1\<rparr>) = job_ids s" "job_ids (s\<lparr>awaiting_idle := x2\<rparr>) = job_ids s"
  "job_ids (s\<lparr>now := x3\<rparr>) = job_ids s" "job_ids (s\<lparr>storage := x4\<rparr>) = job_ids s"
  "job_ids (s\<lparr>jobs := x5\<rparr>) = job_ids s"
  by (simp_all add: job_ids_def)

lemma tracked_fields [simp]:
  "tracked b (s\<lparr>returned := x1\<rparr>) = tracked b s" "tracked b (s\<lparr>awaiting_idle := x2\<rparr>) = tracked b s"
  "tracked b (s\<lparr>now := x3\<rparr>) = tracked b s" "tracked b (s\<lparr>storage := x4\<rparr>) = tracked b s"
  by (simp_all add: tracked_def job_ids_def)

lemma event_EnqueueExecution:
  "queue_event s (EnqueueExecution eid) =
     (case storage s eid of None \<Rightarrow> s | Some ex \<Rightarrow> snd (enqueue_steps eid (steps ex) [] s))"
  by (simp add: enqueueExecution_def getExecutionById_def split: option.splits prod.splits)

lemma event_ProcessExecution:
  "queue_event s (ProcessExecution eid) =
     (case storage s eid of
        None \<Rightarrow> s
      | Some ex \<Rightarrow>
          (if fst (enqueue_steps eid (steps ex) [] s) = []
           then (snd (enqueue_steps eid (steps ex) [] s))
                  \<lparr>returned := returned (snd (enqueue_steps eid (steps ex) [] s)) @ [[]]\<rparr>
           else (snd (enqueue_steps eid (steps ex) [] s))
                  \<lparr>awaiting_idle := awaiting_idle (snd (enqueue_steps eid (steps ex) [] s))
                       @ [fst (enqueue_steps eid (steps ex) [] s)]\<rparr>))"
  by (simp add: processExecution_def enqueueExecution_def getExecutionById_def
        split: option.splits prod.splits)

lemma job_ids_event: "\<exists>new. job_ids (queue_event s e) = job_ids s @ new"
proof (cases e)
  case (Enqueue eid nm)
  then show ?thesis using job_ids_enqueue by simp
next
  case (EnqueueExecution eid)
  show ?thesis
  proof (cases "storage s eid")
    case None
    then show ?thesis unfolding EnqueueExecution event_EnqueueExecution by simp
  next
    case (Some ex)
    then show ?thesis unfolding EnqueueExecution event_EnqueueExecution
      using job_ids_enqueue_steps[of eid "steps ex" "[]" s] by simp
  qed
next
  case (ProcessExecution eid)
  show ?thesis
  proof (cases "storage s eid")
    case None
    then show ?thesis unfolding ProcessExecution event_ProcessExecution by simp
  next
    case (Some ex)
    then show ?thesis unfolding ProcessExecution event_ProcessExecution
      using job_ids_enqueue_steps[of eid "steps ex" "[]" s] by simp
  qed
next
  case (GeneratorSettles i res)
  then show ?thesis using shape_keep[OF shape_generator_settles] by simp
next
  case (TimerFires i)
  then show ?thesis using shape_keep[OF shape_timer_fires] by simp
next
  case Clear
  then show ?thesis by (simp add: clear_def)
next
  case (ClockAdvances d)
  then show ?thesis by simp
next
  case (SaveExecution ex)
  then show ?thesis by simp
next
  case (LoadPendingJobs ds)
  then show ?thesis using job_ids_loadPendingJobs by simp
qed

lemma tracked_event:
  assumes "tracked b s" and "e \<noteq> Clear" and "distinct (job_ids (queue_event s e))"
  shows "tracked b (queue_event s e)"
proof (cases e)
  case (Enqueue eid nm)
  then show ?thesis using assms tracked_enqueue by simp
next
  case (EnqueueExecution eid)
  show ?thesis
  proof (cases "storage s eid")
    case None
    then show ?thesis using assms(1) unfolding EnqueueExecution event_EnqueueExecution by simp
  next
    case (Some ex)
    then show ?thesis using assms(1,3) unfolding EnqueueExecution event_EnqueueExecution
      by (simp add: tracked_enqueue_steps)
  qed
next
  case (ProcessExecution eid)
  show ?thesis
  proof (cases "storage s eid")
    case None
    then show ?thesis using assms(1) unfolding ProcessExecution event_ProcessExecution by simp
  next
    case (Some ex)
    then show ?thesis using assms(1,3) unfolding ProcessExecution event_ProcessExecution
      by (simp add: tracked_enqueue_steps split: if_splits)
  qed
next
  case (GeneratorSettles i res)
  then show ?thesis using shape_tracked[OF shape_generator_settles assms(1)] by simp
next
  case (TimerFires i)
  then show ?thesis using shape_tracked[OF shape_timer_fires assms(1)] by simp
next
  case Clear
  then show ?thesis using assms(2) by simp
next
  case (ClockAdvances d)
  then show ?thesis using assms(1) by simp
next
  case (SaveExecution ex)
  then show ?thesis using assms(1) by simp
next
  case (LoadPendingJobs ds)
  then show ?thesis using assms(1,3) tracked_loadPendingJobs by simp
qed

lemma queue_run_Cons: "queue_run (e # es) s = queue_run es (queue_step s e)"
  by (simp add: queue_run_def)

lemma queue_run_append: "queue_run (es @ es') s = queue_run es' (queue_run es s)"
  by (simp add: queue_run_def)

lemma job_ids_step: "\<exists>new. job_ids (queue_step s e) = job_ids s @ new"
  using job_ids_event[of s e] shape_job_ids[OF shape_resolve_idle, of "queue_event s e"]
  by (simp add: queue_step_def)

lemma job_ids_run: "\<exists>new. job_ids (queue_run es s) = job_ids s @ new"
proof (induction es arbitrary: s)
  case Nil
  then show ?case by (simp add: queue_run_def)
next
  case (Cons e es)
  from job_ids_step[of s e] obtain n1 where n1: "job_ids (queue_step s e) = job_ids s @ n1" by blast
  from Cons.IH[of "queue_step s e"] obtain n2 where
    "job_ids (queue_run es (queue_step s e)) = job_ids (queue_step s e) @ n2" by blast
  with n1 have "job_ids (queue_run (e # es) s) = job_ids s @ (n1 @ n2)" by (simp add: queue_run_Cons)
  then show ?case by (rule exI)
qed

lemma tracked_run:
  "tracked b s \<Longrightarrow> Clear \<notin> set es \<Longrightarrow> distinct (job_ids (queue_run es s))
     \<Longrightarrow> tracked b (queue_run es s)"
proof (induction es arbitrary: s)
  case Nil
  then show ?case by (simp add: queue_run_def)
next
  case (Cons e es)
  from job_ids_run[of es "queue_step s e"] obtain n2 where
    "job_ids (queue_run es (queue_step s e)) = job_ids (queue_step s e) @ n2" by blast
  with Cons.prems(3) have d: "distinct (job_ids (queue_step s e))" by (simp add: queue_run_Cons)
  then have d': "distinct (job_ids (queue_event s e))"
    using shape_job_ids[OF shape_resolve_idle, of "queue_event s e"] by (simp add: queue_step_def)
  from Cons.prems(2) have ne: "e \<noteq> Clear" by auto
  have "tracked b (queue_event s e)" by (rule tracked_event[OF Cons.prems(1) ne d'])
  then have "tracked b (queue_step s e)"
    unfolding queue_step_def by (rule shape_tracked[OF shape_resolve_idle])
  from Cons.IH[OF this] Cons.prems show ?case by (simp add: queue_run_Cons)
qed

lemma tracked_after_clear:
  assumes "pre = [] \<or> last pre = Clear"
  shows "tracked (length (heap (queue_run pre (new_ReasoningQueue st cfg ids t))))
           (queue_run pre (new_ReasoningQueue st cfg ids t))"
proof (cases "pre = []")
  case True
  then show ?thesis by (simp add: queue_run_def tracked_def new_ReasoningQueue_def job_ids_def)
next
  case False
  with assms have l: "last pre = Clear" by simp
  from False l have p: "pre = butlast pre @ [Clear]" by (metis append_butlast_last_id)
  define s1 where "s1 = queue_run (butlast pre) (new_ReasoningQueue st cfg ids t)"
  have "queue_run pre (new_ReasoningQueue st cfg ids t) = queue_step s1 Clear"
    by (subst p) (simp add: queue_run_append s1_def queue_run_def)
  moreover have "jobs (queue_step s1 Clear) = []"
    by (simp add: queue_step_def resolve_idle_def clear_def)
  ultimately show ?thesis by (simp add: tracked_def job_ids_def)
qed

text \<open>
  C6, as the code has it. Let the job ids be distinct. After any sequence of events,
  totalJobs is the number of jobs in the map, which is the number of jobs created (by
  enqueue, enqueueExecution, processExecution or loadPendingJobs) since the last
  clear(), or since the construction if there was none: \<open>pre\<close> are the events up to
  the last clear(), \<open>post\<close> the events after it. The other four fields count the jobs
  of the map by status.
\<close>

theorem totalJobs_counts_jobs_since_clear:
  assumes "pre = [] \<or> last pre = Clear" and "Clear \<notin> set post"
    and "distinct (map job_id (heap (queue_run (pre @ post) (new_ReasoningQueue st cfg ids t))))"
  shows "totalJobs (getStats (queue_run (pre @ post) (new_ReasoningQueue st cfg ids t)))
           = length (heap (queue_run (pre @ post) (new_ReasoningQueue st cfg ids t)))
             - length (heap (queue_run pre (new_ReasoningQueue st cfg ids t)))
       \<and> totalJobs (getStats (queue_run (pre @ post) (new_ReasoningQueue st cfg ids t)))
           = length (jobs (queue_run (pre @ post) (new_ReasoningQueue st cfg ids t)))
       \<and> pending (getStats (queue_run (pre @ post) (new_ReasoningQueue st cfg ids t)))
           = count_in_map Pending (queue_run (pre @ post) (new_ReasoningQueue st cfg ids t))
       \<and> processing (getStats (queue_run (pre @ post) (new_ReasoningQueue st cfg ids t)))
           = count_in_map Processing (queue_run (pre @ post) (new_ReasoningQueue st cfg ids t))
       \<and> completed (getStats (queue_run (pre @ post) (new_ReasoningQueue st cfg ids t)))
           = count_in_map Completed (queue_run (pre @ post) (new_ReasoningQueue st cfg ids t))
       \<and> failed (getStats (queue_run (pre @ post) (new_ReasoningQueue st cfg ids t)))
           = count_in_map Failed (queue_run (pre @ post) (new_ReasoningQueue st cfg ids t))"
proof -
  define s1 where "s1 = queue_run pre (new_ReasoningQueue st cfg ids t)"
  define s2 where "s2 = queue_run (pre @ post) (new_ReasoningQueue st cfg ids t)"
  have r: "s2 = queue_run post s1" by (simp add: s1_def s2_def queue_run_append)
  have t1: "tracked (length (heap s1)) s1" unfolding s1_def by (rule tracked_after_clear[OF assms(1)])
  have d: "distinct (job_ids (queue_run post s1))"
    using assms(3) by (simp add: job_ids_def r[symmetric] s2_def)
  have "tracked (length (heap s1)) s2" unfolding r by (rule tracked_run[OF t1 assms(2) d])
  then have "length (map fst (jobs s2)) = length (drop (length (heap s1)) (job_ids s2))"
    by (simp add: tracked_def)
  then have "length (jobs s2) = length (heap s2) - length (heap s1)"
    by (simp add: job_ids_def)
  moreover have "\<And>x. length (filter (\<lambda>j. status j = x) (job_values s2)) = count_in_map x s2"
    by (simp add: job_values_def count_in_map_def filter_map comp_def case_prod_unfold)
  ultimately show ?thesis
    by (simp add: getStats_def s1_def s2_def) (simp add: job_values_def)
qed

theorem totalJobs_counts_jobs_since_clear_witness:
  "([Enqueue ''exec-1'' ''fetch'', Clear] = [] \<or> last [Enqueue ''exec-1'' ''fetch'', Clear] = Clear)
   \<and> Clear \<notin> set [Enqueue ''exec-1'' ''fetch'', ProcessExecution ''exec-1'']
   \<and> distinct (map job_id (heap (queue_run
        ([Enqueue ''exec-1'' ''fetch'', Clear] @ [Enqueue ''exec-1'' ''fetch'', ProcessExecution ''exec-1''])
        sample_queue)))
   \<and> totalJobs (getStats (queue_run
        ([Enqueue ''exec-1'' ''fetch'', Clear] @ [Enqueue ''exec-1'' ''fetch'', ProcessExecution ''exec-1''])
        sample_queue)) = 2
   \<and> length (heap (queue_run
        ([Enqueue ''exec-1'' ''fetch'', Clear] @ [Enqueue ''exec-1'' ''fetch'', ProcessExecution ''exec-1''])
        sample_queue)) = 3
   \<and> length (heap (queue_run [Enqueue ''exec-1'' ''fetch'', Clear] sample_queue)) = 1"
proof -
  have d: "map job_id (heap (queue_run
        ([Enqueue ''exec-1'' ''fetch'', Clear] @ [Enqueue ''exec-1'' ''fetch'', ProcessExecution ''exec-1''])
        sample_queue)) = [''j'', ''jj'', ''jjj'']"
    by (simp add: queue_eval)
  have l: "length (heap (queue_run [Enqueue ''exec-1'' ''fetch'', Clear] sample_queue)) = 1"
    by (simp add: queue_eval)
  from d have l3: "length (heap (queue_run
        ([Enqueue ''exec-1'' ''fetch'', Clear] @ [Enqueue ''exec-1'' ''fetch'', ProcessExecution ''exec-1''])
        sample_queue)) = 3"
    by (metis length_map length_Cons list.size(3) numeral_3_eq_3)
  from d have dd: "distinct (map job_id (heap (queue_run
        ([Enqueue ''exec-1'' ''fetch'', Clear] @ [Enqueue ''exec-1'' ''fetch'', ProcessExecution ''exec-1''])
        sample_queue)))"
    by simp
  show ?thesis
    using totalJobs_counts_jobs_since_clear
      [of "[Enqueue ''exec-1'' ''fetch'', Clear]"
          "[Enqueue ''exec-1'' ''fetch'', ProcessExecution ''exec-1'']"
          "[''exec-1'' \<mapsto> exec_1]" DEFAULT_REASONING_CONFIG sample_ids 0]
      dd l l3
    by (simp add: sample_queue_def)
qed

text \<open>
  The claim as stated fails after clear(): one job has been created by enqueue since
  the construction of the queue (the heap holds one job object), and totalJobs is 0.
\<close>

theorem totalJobs_after_clear_counterexample:
  "totalJobs (getStats (queue_run [Enqueue ''exec-1'' ''fetch''] sample_queue)) = 1
   \<and> totalJobs (getStats (queue_run [Enqueue ''exec-1'' ''fetch'', Clear] sample_queue)) = 0
   \<and> length (heap (queue_run [Enqueue ''exec-1'' ''fetch'', Clear] sample_queue)) = 1"
  by (simp add: queue_eval)
section \<open>Queue: where the tasks of a job are\<close>

text \<open>
  The dispatch keeps every job in one place. A task is taken from the waiting list, from
  the running tasks or from the timers, the job is processed, and it is placed again:
  running at the generator call, behind a retry timer, or nowhere once it is completed
  or failed.
\<close>

lemma ids_inj:
  "distinct (job_ids s) \<Longrightarrow> a < length (heap s) \<Longrightarrow> b < length (heap s) \<Longrightarrow>
   job_id (heap s ! a) = job_id (heap s ! b) \<Longrightarrow> a = b"
  using nth_eq_iff_index_eq[of "job_ids s" a b] by (simp add: job_ids_def)

lemma mapped_lookup:
  assumes "mapped s" and "distinct (job_ids s)" and "a < length (heap s)"
  shows "map_of (jobs s) (job_id (heap s ! a)) = Some a"
proof -
  have "map_of (zip (job_ids s) [0..<length (heap s)]) (job_ids s ! a) = Some ([0..<length (heap s)] ! a)"
    by (rule map_of_zip_nth) (use assms in \<open>simp_all add: job_ids_def\<close>)
  then show ?thesis using assms by (simp add: mapped_def job_ids_def)
qed

lemma count_remove_nth:
  assumes "i < length xs"
  shows "count_list (take i xs @ drop (Suc i) xs) y = count_list xs y - (if xs ! i = y then 1 else 0)"
proof -
  have "xs = take i xs @ xs ! i # drop (Suc i) xs" using assms by (rule id_take_nth_drop)
  then have "count_list xs y = count_list (take i xs @ xs ! i # drop (Suc i) xs) y" by simp
  then show ?thesis by simp
qed

lemma count_nth_pos: "i < length xs \<Longrightarrow> 0 < count_list xs (xs ! i)"
  by (simp add: count_list_0_iff Suc_le_eq[symmetric] not_less_eq_eq[symmetric])

lemma job_ids_update:
  "job_id j' = job_id (heap s ! a) \<Longrightarrow> heap s' = (heap s)[a := j'] \<Longrightarrow> job_ids s' = job_ids s"
  by (cases "a < length (heap s)")
     (simp_all add: job_ids_def map_update list_update_same_conv list_update_beyond)

lemma no_stray_same:
  "no_stray s \<Longrightarrow> job_ids s' = job_ids s \<Longrightarrow> length (heap s') = length (heap s) \<Longrightarrow>
   pq_waiting s' = pq_waiting s \<Longrightarrow> pq_running s' = pq_running s \<Longrightarrow> timers s' = timers s \<Longrightarrow>
   no_stray s'"
  by (simp add: no_stray_def)

lemma place_terminal:
  assumes "tokens_ok_but strict a s" and "distinct (job_ids s)"
    and "heap s' = (heap s)[a := j']" and "job_id j' = job_id (heap s ! a)"
    and "status j' = Completed \<or> status j' = Failed \<or> (status j' = Pending \<and> \<not> strict)"
    and "pq_waiting s' = pq_waiting s" and "pq_running s' = pq_running s" and "timers s' = timers s"
  shows "tokens_ok strict s'"
proof -
  from assms(1) have a: "a < length (heap s)" by (simp add: tokens_ok_but_def)
  have ids: "job_ids s' = job_ids s" by (rule job_ids_update[OF assms(4,3)])
  have len: "length (heap s') = length (heap s)" using assms(3) by simp
  have "job_tokens_ok strict s' b" if b: "b < length (heap s')" for b
  proof (cases "b = a")
    case True
    then show ?thesis
      using assms a by (auto simp: job_tokens_ok_def tokens_ok_but_def tokens_for_def)
  next
    case False
    then have "heap s' ! b = heap s ! b" using assms(3) by simp
    moreover have "job_tokens_ok strict s b" using assms(1) b False len by (simp add: tokens_ok_but_def)
    ultimately show ?thesis using assms(6-8) by (simp add: job_tokens_ok_def)
  qed
  moreover have "no_stray s'"
    by (rule no_stray_same[OF _ ids len assms(6-8)]) (use assms(1) in \<open>simp add: tokens_ok_but_def\<close>)
  ultimately show ?thesis by (simp add: tokens_ok_def)
qed

lemma place_timer:
  assumes "tokens_ok_but strict a s" and "distinct (job_ids s)"
    and "heap s' = (heap s)[a := j']" and "job_id j' = job_id (heap s ! a)"
    and "status j' = Pending"
    and "pq_waiting s' = pq_waiting s" and "pq_running s' = pq_running s"
    and "timers s' = timers s @ [(d, job_id (heap s ! a))]"
  shows "tokens_ok strict s'"
proof -
  from assms(1) have a: "a < length (heap s)" by (simp add: tokens_ok_but_def)
  have ids: "job_ids s' = job_ids s" by (rule job_ids_update[OF assms(4,3)])
  have len: "length (heap s') = length (heap s)" using assms(3) by simp
  have "job_tokens_ok strict s' b" if b: "b < length (heap s')" for b
  proof (cases "b = a")
    case True
    then show ?thesis
      using assms a by (auto simp: job_tokens_ok_def tokens_ok_but_def tokens_for_def)
  next
    case False
    then have h: "heap s' ! b = heap s ! b" using assms(3) by simp
    have ne: "job_id (heap s ! b) \<noteq> job_id (heap s ! a)"
      using ids_inj[OF assms(2), of b a] b a False len by auto
    have "job_tokens_ok strict s b" using assms(1) b False len by (simp add: tokens_ok_but_def)
    then show ?thesis using assms(6-8) h ne by (simp add: job_tokens_ok_def)
  qed
  moreover have "no_stray s'"
    using assms(1,6-8) ids len a
    by (auto simp: no_stray_def tokens_ok_but_def job_ids_def)
  ultimately show ?thesis by (simp add: tokens_ok_def)
qed

lemma place_running:
  assumes "tokens_ok_but strict a s" and "distinct (job_ids s)"
    and "heap s' = (heap s)[a := j']" and "job_id j' = job_id (heap s ! a)"
    and "status j' = Processing"
    and "pq_waiting s' = pq_waiting s" and "pq_running s' = pq_running s @ [(a, st)]"
    and "timers s' = timers s"
  shows "tokens_ok strict s'"
proof -
  from assms(1) have a: "a < length (heap s)" by (simp add: tokens_ok_but_def)
  have ids: "job_ids s' = job_ids s" by (rule job_ids_update[OF assms(4,3)])
  have len: "length (heap s') = length (heap s)" using assms(3) by simp
  have "job_tokens_ok strict s' b" if b: "b < length (heap s')" for b
  proof (cases "b = a")
    case True
    then show ?thesis
      using assms a by (auto simp: job_tokens_ok_def tokens_ok_but_def tokens_for_def)
  next
    case False
    then have h: "heap s' ! b = heap s ! b" using assms(3) by simp
    have "job_tokens_ok strict s b" using assms(1) b False len by (simp add: tokens_ok_but_def)
    then show ?thesis using assms(6-8) h False by (simp add: job_tokens_ok_def)
  qed
  moreover have "no_stray s'"
    using assms(1,6-8) ids len a
    by (auto simp: no_stray_def tokens_ok_but_def)
  ultimately show ?thesis by (simp add: tokens_ok_def)
qed

lemma but_upd_job:
  assumes "tokens_ok_but strict a s" and "\<And>j. job_id (f j) = job_id j"
  shows "tokens_ok_but strict a (upd_job a f s)"
proof -
  from assms(1) have a: "a < length (heap s)" by (simp add: tokens_ok_but_def)
  have ids: "job_ids (upd_job a f s) = job_ids s"
    by (rule job_ids_update[of "f (heap s ! a)" s a]) (simp_all add: assms(2) upd_job_def)
  have "job_tokens_ok strict (upd_job a f s) b" if "b < length (heap s)" "b \<noteq> a" for b
  proof -
    have "job_tokens_ok strict s b" using assms(1) that by (simp add: tokens_ok_but_def)
    then show ?thesis using that by (simp add: job_tokens_ok_def upd_job_def)
  qed
  moreover have "no_stray (upd_job a f s)"
    by (rule no_stray_same[OF _ ids]) (use assms(1) in \<open>simp_all add: tokens_ok_but_def upd_job_def\<close>)
  ultimately show ?thesis
    using assms a by (simp add: tokens_ok_but_def upd_job_def)
qed

lemma tokens_handleJobError:
  assumes "tokens_ok_but strict a s" and "distinct (job_ids s)"
    and "strict \<Longrightarrow> attempt (heap s ! a) < maxRetries (config s) \<Longrightarrow>
         date_valid (now s + retry_delay (config s) (attempt (heap s ! a)))"
  shows "tokens_ok strict (handleJobError a err s)"
proof -
  from assms(1) have a: "a < length (heap s)" by (simp add: tokens_ok_but_def)
  show ?thesis
  proof (cases "isRetryableError err \<and> attempt (heap s ! a) < maxRetries (config s)")
    case True
    show ?thesis
    proof (cases "date_valid (now s + retry_delay (config s) (attempt (heap s ! a)))")
      case valid: True
      show ?thesis
        by (rule place_timer[OF assms(1,2), where j' = "heap (handleJobError a err s) ! a"
              and d = "retry_delay (config s) (attempt (heap s ! a))"])
           (use True valid a in \<open>simp_all add: handleJobError_def Let_def upd_job_def toISOString_def\<close>)
    next
      case False
      with assms(3) True have ns: "\<not> strict" by blast
      show ?thesis
        by (rule place_terminal[OF assms(1,2), where j' = "heap (handleJobError a err s) ! a"])
           (use True False ns a in \<open>simp_all add: handleJobError_def Let_def upd_job_def toISOString_def\<close>)
    qed
  next
    case False
    show ?thesis
      by (rule place_terminal[OF assms(1,2), where j' = "heap (handleJobError a err s) ! a"])
         (use False a in \<open>auto simp: handleJobError_def Let_def upd_job_def\<close>)
  qed
qed

lemma handleJobError_frame:
  "pq_waiting (handleJobError a err s) = pq_waiting s"
  "pq_running (handleJobError a err s) = pq_running s"
  "storage (handleJobError a err s) = storage s"
  "config (handleJobError a err s) = config s"
  "generator_calls (handleJobError a err s) = generator_calls s"
  "skipped (handleJobError a err s) = skipped s"
  "length (heap (handleJobError a err s)) = length (heap s)"
  "b \<noteq> a \<Longrightarrow> heap (handleJobError a err s) ! b = heap s ! b"
  by (simp_all add: handleJobError_def Let_def upd_job_def split: option.splits)

lemma tokens_processJob:
  assumes "tokens_ok_but strict a s" and "distinct (job_ids s)" and "map_of (jobs s) jobId = Some a"
    and "strict \<Longrightarrow> attempt (heap s ! a) < maxRetries (config s) \<Longrightarrow>
         date_valid (now s + retry_delay (config s) (attempt (heap s ! a)))"
  shows "tokens_ok strict (processJob jobId s)"
proof -
  from assms(1) have a: "a < length (heap s)" by (simp add: tokens_ok_but_def)
  define s1 where "s1 = upd_job a (\<lambda>j. j\<lparr>status := Processing, job_startedAt := Some (now s)\<rparr>) s"
  have b1: "tokens_ok_but strict a s1" unfolding s1_def by (rule but_upd_job[OF assms(1)]) simp
  have d1: "distinct (job_ids s1)"
    using assms(2) job_ids_update[of "heap s1 ! a" s a s1] a by (simp add: s1_def upd_job_def)
  have f1: "pq_waiting s1 = pq_waiting s" "pq_running s1 = pq_running s" "timers s1 = timers s"
    "storage s1 = storage s" "job_id (heap s1 ! a) = job_id (heap s ! a)"
    "length (heap s1) = length (heap s)" "status (heap s1 ! a) = Processing"
    using a by (simp_all add: s1_def upd_job_def)
  have dv: "strict \<Longrightarrow> attempt (heap s1 ! a) < maxRetries (config s1) \<Longrightarrow>
         date_valid (now s1 + retry_delay (config s1) (attempt (heap s1 ! a)))"
    using assms(4) a by (simp add: s1_def upd_job_def)
  note he = tokens_handleJobError[OF b1 d1 dv]
  have p: "processJob jobId s =
     (case getExecutionById (job_executionId (heap s1 ! a)) (storage s1) of
        None \<Rightarrow> handleJobError a (Error (''Execution '' @ job_executionId (heap s1 ! a) @ '' not found'')) s1
      | Some ex \<Rightarrow>
          (case find (\<lambda>st. name st = stepName (heap s1 ! a)) (steps ex) of
             None \<Rightarrow> handleJobError a
                 (Error (''Step '' @ stepName (heap s1 ! a) @ '' not found in execution ''
                           @ job_executionId (heap s1 ! a))) s1
           | Some st \<Rightarrow>
               if has_reasoning st then
                 (upd_job a (\<lambda>j. j\<lparr>status := Completed, completedAt := Some (now s)\<rparr>) s1)
                   \<lparr>skipped := skipped s1 @ [a]\<rparr>
               else s1\<lparr>pq_running := pq_running s1 @ [(a, st)],
                       generator_calls := generator_calls s1 @ [(a, st)]\<rparr>))"
    unfolding processJob_def Let_def assms(3) s1_def option.case ..
  show ?thesis
  proof (cases "getExecutionById (job_executionId (heap s1 ! a)) (storage s1)")
    case None
    then show ?thesis by (simp add: p he)
  next
    case ex: (Some ex)
    show ?thesis
    proof (cases "find (\<lambda>st. name st = stepName (heap s1 ! a)) (steps ex)")
      case None
      then show ?thesis by (simp add: p ex he)
    next
      case st: (Some st)
      show ?thesis
      proof (cases "has_reasoning st")
        case True
        have "tokens_ok strict ((upd_job a (\<lambda>j. j\<lparr>status := Completed, completedAt := Some (now s)\<rparr>) s1)
                 \<lparr>skipped := skipped s1 @ [a]\<rparr>)"
          by (rule place_terminal[OF b1 d1, where j' = "(heap s1 ! a)\<lparr>status := Completed, completedAt := Some (now s)\<rparr>"])
             (simp_all add: upd_job_def)
        then show ?thesis using True by (simp add: p ex st)
      next
        case False
        have "tokens_ok strict (s1\<lparr>pq_running := pq_running s1 @ [(a, st)],
                       generator_calls := generator_calls s1 @ [(a, st)]\<rparr>)"
          by (rule place_running[OF b1 d1, where j' = "heap s1 ! a" and st = st])
             (use f1 in \<open>simp_all\<close>)
        then show ?thesis using False by (simp add: p ex st)
      qed
    qed
  qed
qed

lemma id_at: "k \<in> set (job_ids s) \<Longrightarrow> \<exists>a < length (heap s). job_id (heap s ! a) = k"
  by (auto simp: job_ids_def in_set_conv_nth)

lemma pop_waiting:
  assumes "tokens_ok strict s" and "mapped s" and "distinct (job_ids s)" and "pq_waiting s = k # rest"
  shows "\<exists>a. map_of (jobs s) k = Some a \<and> status (heap s ! a) = Pending
             \<and> tokens_ok_but strict a (s\<lparr>pq_waiting := rest\<rparr>)"
proof -
  from assms(1) have ns: "no_stray s" by (simp add: tokens_ok_def)
  have "k \<in> set (job_ids s)"
  proof (rule ccontr)
    assume "k \<notin> set (job_ids s)"
    with ns have "count_list (pq_waiting s) k = 0" by (simp add: no_stray_def)
    then show False by (simp add: assms(4))
  qed
  then obtain a where a: "a < length (heap s)" "job_id (heap s ! a) = k" using id_at by blast
  have m: "map_of (jobs s) k = Some a" using mapped_lookup[OF assms(2,3) a(1)] a(2) by simp
  have "job_tokens_ok strict s a" using assms(1) a(1) by (simp add: tokens_ok_def)
  then have g: "status (heap s ! a) = Pending \<and> count_list rest k = 0
      \<and> count_list (map fst (pq_running s)) a = 0 \<and> count_list (map snd (timers s)) k = 0"
    by (cases "status (heap s ! a)")
       (simp_all add: job_tokens_ok_def tokens_for_def a(2) assms(4) split: if_splits)
  have o: "job_tokens_ok strict (s\<lparr>pq_waiting := rest\<rparr>) b" if "b < length (heap s)" "b \<noteq> a" for b
  proof -
    have "job_id (heap s ! b) \<noteq> k" using ids_inj[OF assms(3) that(1) a(1)] that(2) a(2) by auto
    moreover have "job_tokens_ok strict s b" using assms(1) that(1) by (simp add: tokens_ok_def)
    ultimately show ?thesis by (simp add: job_tokens_ok_def assms(4))
  qed
  have n: "no_stray (s\<lparr>pq_waiting := rest\<rparr>)"
    using ns by (auto simp: no_stray_def assms(4) job_ids_def split: if_splits)
  show ?thesis using m g o n a by (auto simp: tokens_ok_but_def)
qed

lemma pop_running:
  assumes "tokens_ok strict s" and "i < length (pq_running s)"
  shows "status (heap s ! fst (pq_running s ! i)) = Processing
       \<and> tokens_ok_but strict (fst (pq_running s ! i))
           (s\<lparr>pq_running := take i (pq_running s) @ drop (Suc i) (pq_running s)\<rparr>)"
proof -
  define a where "a = fst (pq_running s ! i)"
  define rs where "rs = map fst (pq_running s)"
  from assms(1) have ns: "no_stray s" by (simp add: tokens_ok_def)
  have i: "i < length rs" "rs ! i = a" using assms(2) by (simp_all add: rs_def a_def)
  have pos: "0 < count_list rs a" using count_nth_pos[OF i(1)] i(2) by simp
  have a: "a < length (heap s)"
  proof (rule ccontr)
    assume "\<not> a < length (heap s)"
    with ns have "count_list rs a = 0" by (simp add: no_stray_def rs_def)
    with pos show False by simp
  qed
  have "job_tokens_ok strict s a" using assms(1) a by (simp add: tokens_ok_def)
  then have g: "status (heap s ! a) = Processing \<and> count_list rs a = 1
      \<and> count_list (pq_waiting s) (job_id (heap s ! a)) = 0
      \<and> count_list (map snd (timers s)) (job_id (heap s ! a)) = 0"
    using pos by (cases "status (heap s ! a)") (simp_all add: job_tokens_ok_def tokens_for_def rs_def)
  have c: "count_list (take i rs @ drop (Suc i) rs) y = count_list rs y - (if a = y then 1 else 0)" for y
    using count_remove_nth[OF i(1), of y] i(2) by simp
  let ?s = "s\<lparr>pq_running := take i (pq_running s) @ drop (Suc i) (pq_running s)\<rparr>"
  have r: "map fst (pq_running ?s) = take i rs @ drop (Suc i) rs"
    by (simp add: rs_def take_map drop_map)
  have o: "job_tokens_ok strict ?s b" if "b < length (heap s)" "b \<noteq> a" for b
  proof -
    have "job_tokens_ok strict s b" using assms(1) that(1) by (simp add: tokens_ok_def)
    then show ?thesis using that(2) unfolding job_tokens_ok_def r c by (simp add: rs_def)
  qed
  have n: "no_stray ?s"
    using ns unfolding no_stray_def r c by (simp add: rs_def job_ids_def)
  have "tokens_ok_but strict a ?s"
    unfolding tokens_ok_but_def r c using a g o n by simp
  then show ?thesis using g by (simp add: a_def)
qed

lemma pop_timer:
  assumes "tokens_ok strict s" and "distinct (job_ids s)" and "i < length (timers s)"
  shows "tokens_ok strict (s\<lparr>timers := take i (timers s) @ drop (Suc i) (timers s),
                      pq_waiting := pq_waiting s @ [snd (timers s ! i)]\<rparr>)"
proof -
  define k where "k = snd (timers s ! i)"
  define ts where "ts = map snd (timers s)"
  from assms(1) have ns: "no_stray s" by (simp add: tokens_ok_def)
  have i: "i < length ts" "ts ! i = k" using assms(3) by (simp_all add: ts_def k_def)
  have pos: "0 < count_list ts k" using count_nth_pos[OF i(1)] i(2) by simp
  have "k \<in> set (job_ids s)"
  proof (rule ccontr)
    assume "k \<notin> set (job_ids s)"
    with ns have "count_list ts k = 0" by (simp add: no_stray_def ts_def)
    with pos show False by simp
  qed
  then obtain a where a: "a < length (heap s)" "job_id (heap s ! a) = k" using id_at by blast
  have c: "count_list (take i ts @ drop (Suc i) ts) y = count_list ts y - (if k = y then 1 else 0)" for y
    using count_remove_nth[OF i(1), of y] i(2) by simp
  let ?s = "s\<lparr>timers := take i (timers s) @ drop (Suc i) (timers s),
              pq_waiting := pq_waiting s @ [snd (timers s ! i)]\<rparr>"
  have r: "map snd (timers ?s) = take i ts @ drop (Suc i) ts"
    by (simp add: ts_def take_map drop_map)
  have w: "pq_waiting ?s = pq_waiting s @ [k]" by (simp add: k_def)
  have "job_tokens_ok strict ?s b" if b: "b < length (heap ?s)" for b
  proof -
    have t: "job_tokens_ok strict s b" using assms(1) b by (simp add: tokens_ok_def)
    show ?thesis
    proof (cases "b = a")
      case True
      with t pos a(2) show ?thesis
        unfolding job_tokens_ok_def r c w
        by (cases "status (heap s ! a)") (auto simp: tokens_for_def ts_def split: if_splits)
    next
      case False
      then have "job_id (heap s ! b) \<noteq> k" using ids_inj[OF assms(2) _ a(1)] b a(2) by auto
      with t show ?thesis unfolding job_tokens_ok_def r c w by (simp add: ts_def)
    qed
  qed
  moreover have "no_stray ?s"
    using ns \<open>k \<in> set (job_ids s)\<close> unfolding no_stray_def r c w
    by (auto simp: ts_def job_ids_def)
  ultimately show ?thesis by (simp add: tokens_ok_def)
qed

lemma push_new:
  assumes "tokens_ok strict s" and "job_id job \<notin> set (job_ids s)" and "status job = Pending"
  shows "tokens_ok strict ((jobs_set job s)\<lparr>pq_waiting := pq_waiting (jobs_set job s) @ [job_id job]\<rparr>)"
proof -
  let ?s = "(jobs_set job s)\<lparr>pq_waiting := pq_waiting (jobs_set job s) @ [job_id job]\<rparr>"
  from assms(1) have ns: "no_stray s" by (simp add: tokens_ok_def)
  have f: "heap ?s = heap s @ [job]" "pq_waiting ?s = pq_waiting s @ [job_id job]"
    "pq_running ?s = pq_running s" "timers ?s = timers s"
    by (simp_all add: jobs_set_def)
  have z: "count_list (pq_waiting s) (job_id job) = 0" "count_list (map snd (timers s)) (job_id job) = 0"
    "count_list (map fst (pq_running s)) (length (heap s)) = 0"
    using ns assms(2) by (simp_all add: no_stray_def)
  have "job_tokens_ok strict ?s b" if b: "b < length (heap ?s)" for b
  proof (cases "b = length (heap s)")
    case True
    then show ?thesis unfolding job_tokens_ok_def f using z assms(3) by (simp add: tokens_for_def)
  next
    case False
    then have b': "b < length (heap s)" using b by (simp add: f)
    then have "heap s ! b \<in> set (heap s)" by simp
    then have "job_id (heap s ! b) \<in> set (job_ids s)" unfolding job_ids_def by (simp del: nth_mem)
    then have "job_id (heap s ! b) \<noteq> job_id job" using assms(2) by auto
    moreover have "job_tokens_ok strict s b" using assms(1) b' by (simp add: tokens_ok_def)
    ultimately show ?thesis unfolding job_tokens_ok_def f using b' by (simp add: nth_append)
  qed
  moreover have "no_stray ?s"
  proof -
    have ids: "job_ids ?s = job_ids s @ [job_id job]" "length (heap ?s) = Suc (length (heap s))"
      by (simp_all add: job_ids_def jobs_set_def)
    show ?thesis using ns unfolding no_stray_def ids f(2,3,4) by auto
  qed
  ultimately show ?thesis by (simp add: tokens_ok_def)
qed

section \<open>Queue: the steps of the dispatch\<close>

lemma structure_shape:
  assumes "shape s' = shape s"
  shows "mapped s' = mapped s" "job_ids s' = job_ids s" "targets eid nm s' = targets eid nm s"
    "length (heap s') = length (heap s)"
    "list_all (\<lambda>j. lacking_step sto (job_executionId j) (stepName j)) (heap s')
       = list_all (\<lambda>j. lacking_step sto (job_executionId j) (stepName j)) (heap s)"
proof -
  from assms have j: "jobs s' = jobs s" and k: "map job_key (heap s') = map job_key (heap s)"
    by (simp_all add: shape_def)
  from k have l: "length (heap s') = length (heap s)" by (rule map_eq_imp_length_eq)
  have "map (fst \<circ> job_key) (heap s') = map (fst \<circ> job_key) (heap s)"
    using k by (metis map_map)
  then show i: "job_ids s' = job_ids s" by (simp add: job_ids_def job_key_def comp_def)
  show "mapped s' = mapped s" by (simp add: mapped_def j i l)
  show "length (heap s') = length (heap s)" by (rule l)
  have "map (snd \<circ> job_key) (heap s') = map (snd \<circ> job_key) (heap s)"
    using k by (metis map_map)
  then have e: "map (\<lambda>j. (job_executionId j, stepName j)) (heap s')
      = map (\<lambda>j. (job_executionId j, stepName j)) (heap s)"
    by (simp add: job_key_def comp_def)
  have "list_all (\<lambda>p. fst p = eid \<and> snd p = nm) (map (\<lambda>j. (job_executionId j, stepName j)) (heap s'))
     = list_all (\<lambda>p. fst p = eid \<and> snd p = nm) (map (\<lambda>j. (job_executionId j, stepName j)) (heap s))"
    using e by simp
  then show "targets eid nm s' = targets eid nm s"
    by (simp add: targets_def list_all_iff)
  have "list_all (\<lambda>p. lacking_step sto (fst p) (snd p)) (map (\<lambda>j. (job_executionId j, stepName j)) (heap s'))
     = list_all (\<lambda>p. lacking_step sto (fst p) (snd p)) (map (\<lambda>j. (job_executionId j, stepName j)) (heap s))"
    using e by simp
  then show "list_all (\<lambda>j. lacking_step sto (job_executionId j) (stepName j)) (heap s')
       = list_all (\<lambda>j. lacking_step sto (job_executionId j) (stepName j)) (heap s)"
    by (simp add: list_all_iff)
qed

lemma handleJobError_outcome:
  assumes "a < length (heap s)"
  shows "status (heap (handleJobError a err s) ! a)
           = (if isRetryableError err \<and> attempt (heap s ! a) < maxRetries (config s)
              then Pending else Failed)"
    and "attempt (heap (handleJobError a err s) ! a)
           = (if isRetryableError err \<and> attempt (heap s ! a) < maxRetries (config s)
              then attempt (heap s ! a) + 1 else attempt (heap s ! a))"
  using assms by (simp_all add: handleJobError_def Let_def upd_job_def split: option.splits)

lemma processJob_cases:
  assumes "map_of (jobs s) k = Some a" and "a < length (heap s)"
  defines "s1 \<equiv> upd_job a (\<lambda>j. j\<lparr>status := Processing, job_startedAt := Some (now s)\<rparr>) s"
  obtains (missing) err where
      "\<not> stored_reasoning (job_executionId (heap s ! a)) (stepName (heap s ! a)) s"
      "\<not> lacking_step (storage s) (job_executionId (heap s ! a)) (stepName (heap s ! a))"
      "processJob k s = handleJobError a err s1"
    | (short)
      "stored_reasoning (job_executionId (heap s ! a)) (stepName (heap s ! a)) s"
      "\<not> lacking_step (storage s) (job_executionId (heap s ! a)) (stepName (heap s ! a))"
      "processJob k s = (upd_job a (\<lambda>j. j\<lparr>status := Completed, completedAt := Some (now s)\<rparr>) s1)
                           \<lparr>skipped := skipped s1 @ [a]\<rparr>"
    | (start) st where
      "lacking_step (storage s) (job_executionId (heap s ! a)) (stepName (heap s ! a))"
      "\<not> stored_reasoning (job_executionId (heap s ! a)) (stepName (heap s ! a)) s"
      "processJob k s = s1\<lparr>pq_running := pq_running s1 @ [(a, st)],
                            generator_calls := generator_calls s1 @ [(a, st)]\<rparr>"
proof -
  have f: "job_executionId (heap s1 ! a) = job_executionId (heap s ! a)"
    "stepName (heap s1 ! a) = stepName (heap s ! a)" "storage s1 = storage s"
    using assms(2) by (simp_all add: s1_def upd_job_def)
  have p: "processJob k s =
     (case storage s (job_executionId (heap s ! a)) of
        None \<Rightarrow> handleJobError a (Error (''Execution '' @ job_executionId (heap s ! a) @ '' not found'')) s1
      | Some ex \<Rightarrow>
          (case find (\<lambda>st. name st = stepName (heap s ! a)) (steps ex) of
             None \<Rightarrow> handleJobError a
                 (Error (''Step '' @ stepName (heap s ! a) @ '' not found in execution ''
                           @ job_executionId (heap s ! a))) s1
           | Some st \<Rightarrow>
               if has_reasoning st then
                 (upd_job a (\<lambda>j. j\<lparr>status := Completed, completedAt := Some (now s)\<rparr>) s1)
                   \<lparr>skipped := skipped s1 @ [a]\<rparr>
               else s1\<lparr>pq_running := pq_running s1 @ [(a, st)],
                       generator_calls := generator_calls s1 @ [(a, st)]\<rparr>))"
    unfolding processJob_def Let_def assms(1) option.case getExecutionById_def
      s1_def[symmetric] f ..
  show thesis
  proof (cases "storage s (job_executionId (heap s ! a))")
    case None
    then show thesis using missing by (simp add: p stored_reasoning_def lacking_step_def)
  next
    case ex: (Some ex)
    show thesis
    proof (cases "find (\<lambda>st. name st = stepName (heap s ! a)) (steps ex)")
      case None
      then show thesis using missing ex by (simp add: p stored_reasoning_def lacking_step_def)
    next
      case st: (Some st)
      show thesis
      proof (cases "has_reasoning st")
        case True
        then show thesis using short ex st by (simp add: p stored_reasoning_def lacking_step_def)
      next
        case False
        then show thesis using start[of st] ex st
          by (simp add: p stored_reasoning_def lacking_step_def)
      qed
    qed
  qed
qed

text \<open>
  What one run of \<open>processJob\<close> does to the job it finds, up to the point where it
  returns or suspends at the generator call.
\<close>

lemma processJob_outcome:
  assumes "map_of (jobs s) k = Some a" and "a < length (heap s)"
  shows "length (heap (processJob k s)) = length (heap s)"
    and "b \<noteq> a \<Longrightarrow> heap (processJob k s) ! b = heap s ! b"
    and "storage (processJob k s) = storage s"
    and "stored_reasoning (job_executionId (heap s ! a)) (stepName (heap s ! a)) s \<Longrightarrow>
           status (heap (processJob k s) ! a) = Completed
         \<and> attempt (heap (processJob k s) ! a) = attempt (heap s ! a)
         \<and> generator_calls (processJob k s) = generator_calls s
         \<and> pq_running (processJob k s) = pq_running s
         \<and> timers (processJob k s) = timers s
         \<and> skipped (processJob k s) = skipped s @ [a]"
    and "\<not> stored_reasoning (job_executionId (heap s ! a)) (stepName (heap s ! a)) s \<Longrightarrow>
           status (heap (processJob k s) ! a) \<noteq> Completed
         \<and> skipped (processJob k s) = skipped s"
    and "lacking_step (storage s) (job_executionId (heap s ! a)) (stepName (heap s ! a)) \<Longrightarrow>
           status (heap (processJob k s) ! a) = Processing
         \<and> attempt (heap (processJob k s) ! a) = attempt (heap s ! a)
         \<and> (\<exists>st. generator_calls (processJob k s) = generator_calls s @ [(a, st)])"
    and "attempt (heap s ! a) \<le> attempt (heap (processJob k s) ! a)"
proof -
  let ?r = "stored_reasoning (job_executionId (heap s ! a)) (stepName (heap s ! a)) s"
  let ?l = "lacking_step (storage s) (job_executionId (heap s ! a)) (stepName (heap s ! a))"
  let ?s = "processJob k s"
  have "length (heap ?s) = length (heap s)
      \<and> (b \<noteq> a \<longrightarrow> heap ?s ! b = heap s ! b)
      \<and> storage ?s = storage s
      \<and> (?r \<longrightarrow> status (heap ?s ! a) = Completed
         \<and> attempt (heap ?s ! a) = attempt (heap s ! a)
         \<and> generator_calls ?s = generator_calls s
         \<and> pq_running ?s = pq_running s \<and> timers ?s = timers s
         \<and> skipped ?s = skipped s @ [a])
      \<and> (\<not> ?r \<longrightarrow> status (heap ?s ! a) \<noteq> Completed \<and> skipped ?s = skipped s)
      \<and> (?l \<longrightarrow> status (heap ?s ! a) = Processing
         \<and> attempt (heap ?s ! a) = attempt (heap s ! a)
         \<and> (\<exists>st. generator_calls ?s = generator_calls s @ [(a, st)]))
      \<and> attempt (heap s ! a) \<le> attempt (heap ?s ! a)"
  proof (rule processJob_cases[OF assms], goal_cases)
    case (1 err)
    then show ?case using assms(2)
      by (simp add: handleJobError_def Let_def upd_job_def split: option.splits)
  next
    case 2
    then show ?case using assms(2) by (simp add: upd_job_def)
  next
    case (3 st)
    then show ?case using assms(2) by (simp add: upd_job_def)
  qed
  then show "length (heap ?s) = length (heap s)"
    and "b \<noteq> a \<Longrightarrow> heap ?s ! b = heap s ! b"
    and "storage ?s = storage s"
    and "?r \<Longrightarrow> status (heap ?s ! a) = Completed
         \<and> attempt (heap ?s ! a) = attempt (heap s ! a)
         \<and> generator_calls ?s = generator_calls s
         \<and> pq_running ?s = pq_running s \<and> timers ?s = timers s
         \<and> skipped ?s = skipped s @ [a]"
    and "\<not> ?r \<Longrightarrow> status (heap ?s ! a) \<noteq> Completed \<and> skipped ?s = skipped s"
    and "?l \<Longrightarrow> status (heap ?s ! a) = Processing
         \<and> attempt (heap ?s ! a) = attempt (heap s ! a)
         \<and> (\<exists>st. generator_calls ?s = generator_calls s @ [(a, st)])"
    and "attempt (heap s ! a) \<le> attempt (heap ?s ! a)"
    by simp_all
qed

lemma gen_calls_processJob:
  "generator_calls (processJob k s) = generator_calls s
   \<or> (\<exists>a st. map_of (jobs s) k = Some a
        \<and> generator_calls (processJob k s) = generator_calls s @ [(a, st)])"
  by (simp add: processJob_def Let_def upd_job_def handleJobError_frame split: option.splits)

lemma dates_okD:
  assumes "dates_ok s" and "1 \<le> k" and "k < maxRetries (config s)"
  shows "date_valid (now s + retry_delay (config s) k)"
proof -
  have "nat k \<in> set [1..<nat (maxRetries (config s))]" using assms(2,3) by auto
  with assms(1) have "date_valid (now s + retry_delay (config s) (int (nat k)))"
    unfolding dates_ok_def list_all_iff by blast
  then show ?thesis using assms(2) by simp
qed

lemma dates_ok_fixed: "fixed s' = fixed s \<Longrightarrow> dates_ok s' = dates_ok s"
  by (simp add: fixed_def dates_ok_def)

lemma attempt_at: "list_all (\<lambda>j. 1 \<le> attempt j) (heap s) \<Longrightarrow> a < length (heap s) \<Longrightarrow>
   1 \<le> attempt (heap s ! a)"
  by (simp add: list_all_length)

text \<open>The first waiting task is the task of a pending job.\<close>

lemma waiting_head:
  assumes "orderly strict s" and "pq_waiting s = k # rest"
  shows "\<exists>a. map_of (jobs s) k = Some a \<and> a < length (heap s) \<and> status (heap s ! a) = Pending
            \<and> tokens_ok_but strict a (s\<lparr>pq_waiting := rest\<rparr>)"
proof -
  from assms(1) have "tokens_ok strict s" "mapped s" "distinct (job_ids s)"
    by (simp_all add: orderly_def)
  from pop_waiting[OF this assms(2)] show ?thesis by (auto simp: tokens_ok_but_def)
qed

lemma orderly_process:
  assumes "orderly strict s" and "pq_waiting s = k # rest" and "strict \<Longrightarrow> dates_ok s"
  shows "orderly strict (processJob k (s\<lparr>pq_waiting := rest\<rparr>))"
proof -
  let ?s0 = "s\<lparr>pq_waiting := rest\<rparr>"
  let ?s' = "processJob k ?s0"
  from assms(1) have m: "mapped s" and d: "distinct (job_ids s)"
    and at: "list_all (\<lambda>j. 1 \<le> attempt j) (heap s)"
    by (simp_all add: orderly_def)
  from waiting_head[OF assms(1,2)] obtain a where a: "map_of (jobs s) k = Some a"
    "a < length (heap s)" "tokens_ok_but strict a ?s0" by blast
  have a0: "map_of (jobs ?s0) k = Some a" "a < length (heap ?s0)" using a by simp_all
  have ids0: "job_ids ?s0 = job_ids s" by (simp add: job_ids_def)
  have dv: "date_valid (now ?s0 + retry_delay (config ?s0) (attempt (heap ?s0 ! a)))"
    if "strict" "attempt (heap ?s0 ! a) < maxRetries (config ?s0)"
    using dates_okD[OF assms(3)[OF that(1)] attempt_at[OF at a(2)]] that(2) by simp
  have tok: "tokens_ok strict ?s'"
    by (rule tokens_processJob[OF a(3) _ a0(1) dv]) (simp_all add: ids0 d)
  have sh: "shape ?s' = shape s" by (simp add: shape_processJob)
  note st = structure_shape[OF sh]
  note o = processJob_outcome[OF a0]
  have "1 \<le> attempt (heap ?s' ! b)" if "b < length (heap ?s')" for b
  proof (cases "b = a")
    case True
    then show ?thesis using attempt_at[OF at a(2)] o(7) by simp
  next
    case False
    then show ?thesis using o(2)[OF False] that attempt_at[OF at, of b] st(4) by simp
  qed
  then have at': "list_all (\<lambda>j. 1 \<le> attempt j) (heap ?s')" by (simp add: list_all_length)
  show ?thesis unfolding orderly_def st using m d tok at' by simp
qed

lemma orderly_tryToStartAnother:
  "orderly strict s \<Longrightarrow> (strict \<Longrightarrow> dates_ok s) \<Longrightarrow> orderly strict (tryToStartAnother s)"
proof (induction s rule: tryToStartAnother.induct)
  case (1 s)
  show ?case
  proof (cases "pq_waiting s")
    case Nil
    then show ?thesis using 1(2) by (simp add: tryToStartAnother.simps[of s])
  next
    case (Cons jobId rest)
    show ?thesis
    proof (cases "length (pq_running s) < concurrency (config s)")
      case True
      have d: "dates_ok (processJob jobId (s\<lparr>pq_waiting := rest\<rparr>))" if strict
        using 1(3)[OF that] dates_ok_fixed[of "processJob jobId (s\<lparr>pq_waiting := rest\<rparr>)" s]
        by simp
      have "orderly strict (tryToStartAnother (processJob jobId (s\<lparr>pq_waiting := rest\<rparr>)))"
        by (rule 1(1)[OF Cons True orderly_process[OF 1(2) Cons 1(3)] d])
      then show ?thesis using Cons True by (simp add: tryToStartAnother.simps[of s])
    next
      case False
      with Cons show ?thesis using 1(2) by (simp add: tryToStartAnother.simps[of s])
    qed
  qed
qed

lemma orderly_frame:
  assumes "jobs s' = jobs s" and "heap s' = heap s" and "pq_waiting s' = pq_waiting s"
    and "pq_running s' = pq_running s" and "timers s' = timers s"
  shows "orderly strict s' = orderly strict s"
  using assms
  by (simp add: orderly_def mapped_def tokens_ok_def job_tokens_ok_def no_stray_def job_ids_def)

lemma orderly_timer_fires:
  assumes "orderly strict s" and "strict \<Longrightarrow> dates_ok s"
  shows "orderly strict (timer_fires i s)"
proof (cases "i < length (timers s)")
  case False
  then show ?thesis using assms by (simp add: timer_fires_def)
next
  case True
  let ?s1 = "s\<lparr>timers := take i (timers s) @ drop (Suc i) (timers s),
               pq_waiting := pq_waiting s @ [snd (timers s ! i)]\<rparr>"
  from assms have t: "tokens_ok strict s" and d: "distinct (job_ids s)" by (simp_all add: orderly_def)
  have "tokens_ok strict ?s1" by (rule pop_timer[OF t d True])
  then have o: "orderly strict ?s1"
    using assms(1) by (simp add: orderly_def mapped_def job_ids_def)
  have "dates_ok ?s1" if strict using assms(2)[OF that] dates_ok_fixed[of ?s1 s] by simp
  with o have "orderly strict (tryToStartAnother ?s1)" by (rule orderly_tryToStartAnother)
  then show ?thesis using True by (simp add: timer_fires_def pq_add_def)
qed

lemma mapped_jobs_set:
  assumes "mapped s" and "job_id job \<notin> set (job_ids s)"
  shows "mapped (jobs_set job s)"
proof -
  have "job_id job \<notin> fst ` set (jobs s)"
  proof
    assume "job_id job \<in> fst ` set (jobs s)"
    then have "job_id job \<in> set (map fst (zip (job_ids s) [0..<length (heap s)]))"
      using assms(1) by (simp add: mapped_def)
    then show False using assms(2) by (simp add: job_ids_def)
  qed
  then have "jobs (jobs_set job s) = jobs s @ [(job_id job, length (heap s))]"
    by (simp add: jobs_set_def update_fresh)
  then show ?thesis using assms(1) by (simp add: mapped_def job_ids_def jobs_set_def)
qed

lemma enqueue_enqueued: "snd (enqueue eid nm s) = tryToStartAnother (enqueued eid nm s)"
  by (simp add: enqueue_def Let_def pq_add_def enqueued_def jobs_set_def)

lemma enqueued_fields:
  "heap (enqueued eid nm s) = heap s @ [new_job (uuid s (uuid_calls s)) eid nm 1 (now s)]"
  "pq_running (enqueued eid nm s) = pq_running s" "timers (enqueued eid nm s) = timers s"
  "generator_calls (enqueued eid nm s) = generator_calls s"
  "skipped (enqueued eid nm s) = skipped s" "storage (enqueued eid nm s) = storage s"
  "config (enqueued eid nm s) = config s" "now (enqueued eid nm s) = now s"
  "job_ids (enqueued eid nm s) = job_ids s @ [uuid s (uuid_calls s)]"
  by (simp_all add: enqueued_def jobs_set_def job_ids_def new_job_def)

lemma job_ids_enqueue': "job_ids (snd (enqueue eid nm s)) = job_ids s @ [uuid s (uuid_calls s)]"
  unfolding enqueue_enqueued
  using structure_shape(2)[OF shape_tryToStartAnother, of "enqueued eid nm s"]
  by (simp add: enqueued_fields)

lemma orderly_enqueued:
  assumes "orderly strict s" and "uuid s (uuid_calls s) \<notin> set (job_ids s)"
  shows "orderly strict (enqueued eid nm s)"
proof -
  define job where "job = new_job (uuid s (uuid_calls s)) eid nm 1 (now s)"
  define su where "su = s\<lparr>uuid_calls := uuid_calls s + 1\<rparr>"
  have j: "job_id job = uuid s (uuid_calls s)" "status job = Pending" "attempt job = 1"
    by (simp_all add: job_def new_job_def)
  have e: "enqueued eid nm s = (jobs_set job su)\<lparr>pq_waiting := pq_waiting (jobs_set job su) @ [job_id job]\<rparr>"
    by (simp add: enqueued_def job_def su_def jobs_set_def new_job_def)
  have ou: "orderly strict su" using assms(1) orderly_frame[of su s strict] by (simp add: su_def)
  then have m: "mapped su" and t: "tokens_ok strict su" and d: "distinct (job_ids su)"
    and at: "list_all (\<lambda>j. 1 \<le> attempt j) (heap su)"
    by (simp_all add: orderly_def)
  have fresh: "job_id job \<notin> set (job_ids su)" using assms(2) j by (simp add: su_def job_ids_def)
  have t1: "tokens_ok strict (enqueued eid nm s)" unfolding e by (rule push_new[OF t fresh j(2)])
  have m1: "mapped (enqueued eid nm s)"
    unfolding e using mapped_jobs_set[OF m fresh] by (simp add: mapped_def job_ids_def)
  have d1: "distinct (job_ids (enqueued eid nm s))"
    unfolding e using d fresh by (simp add: job_ids_def jobs_set_def)
  have a1: "list_all (\<lambda>j. 1 \<le> attempt j) (heap (enqueued eid nm s))"
    unfolding e using at j(3) by (simp add: jobs_set_def)
  show ?thesis unfolding orderly_def using m1 t1 d1 a1 by simp
qed

lemma fresh_id:
  assumes "distinct (job_ids (snd (enqueue eid nm s)))"
  shows "uuid s (uuid_calls s) \<notin> set (job_ids s)"
  using assms unfolding job_ids_enqueue' by simp

text \<open>The task whose generator call settles is the task of a job in processing.\<close>

lemma running_job:
  assumes "orderly strict s" and "i < length (pq_running s)"
  shows "fst (pq_running s ! i) < length (heap s)"
    and "status (heap s ! fst (pq_running s ! i)) = Processing"
    and "tokens_ok_but strict (fst (pq_running s ! i))
           (s\<lparr>pq_running := take i (pq_running s) @ drop (Suc i) (pq_running s)\<rparr>)"
proof -
  from assms(1) have t: "tokens_ok strict s" by (simp add: orderly_def)
  from pop_running[OF t assms(2)]
  show "fst (pq_running s ! i) < length (heap s)"
    and "status (heap s ! fst (pq_running s ! i)) = Processing"
    and "tokens_ok_but strict (fst (pq_running s ! i))
           (s\<lparr>pq_running := take i (pq_running s) @ drop (Suc i) (pq_running s)\<rparr>)"
    by (simp_all add: tokens_ok_but_def)
qed

lemma generator_settles_settle:
  "i < length (pq_running s) \<Longrightarrow> generator_settles i res s = tryToStartAnother (settle i res s)"
  by (simp add: generator_settles_def settle_def Let_def)

lemma settle_cases:
  fixes s :: queue_state and i :: nat
  defines "a \<equiv> fst (pq_running s ! i)"
    and "s1 \<equiv> s\<lparr>pq_running := take i (pq_running s) @ drop (Suc i) (pq_running s)\<rparr>"
  obtains (fail) err where "settle i res s = handleJobError a err s1"
      "res = Inl err \<or> (\<exists>r. res = Inr r)"
    | (ok) r st' where "res = Inr r"
      "settle i res s = upd_job a (\<lambda>j. j\<lparr>status := Completed, completedAt := Some (now s)\<rparr>)
                          (s1\<lparr>storage := st'\<rparr>)"
proof (cases res)
  case (Inl err)
  then show thesis using fail[of err] by (simp add: settle_def Let_def a_def s1_def)
next
  case (Inr r)
  show thesis
  proof (cases "updateStepReasoning (job_executionId (heap s1 ! a)) (stepName (heap s1 ! a)) r (storage s1)")
    case (Inl err)
    then show thesis using fail[of err] Inr by (simp add: settle_def Let_def a_def s1_def)
  next
    case st: (Inr st')
    then show thesis using ok[of r st'] Inr by (simp add: settle_def Let_def a_def s1_def)
  qed
qed

lemma fixed_settle_but_storage:
  "config (settle i res s) = config s" "now (settle i res s) = now s"
proof -
  show "config (settle i res s) = config s"
    by (rule settle_cases[of i res s]) (simp_all add: handleJobError_frame upd_job_def)
  have n: "now (handleJobError a err x) = now x" for a err x
    using fixed_handleJobError[of a err x] by (simp add: fixed_def)
  show "now (settle i res s) = now s"
    by (rule settle_cases[of i res s]) (simp_all add: n upd_job_def)
qed

lemma orderly_settle:
  assumes "orderly strict s" and "i < length (pq_running s)" and "strict \<Longrightarrow> dates_ok s"
  shows "orderly strict (settle i res s)"
proof -
  define a where "a = fst (pq_running s ! i)"
  define s1 where "s1 = s\<lparr>pq_running := take i (pq_running s) @ drop (Suc i) (pq_running s)\<rparr>"
  from assms(1) have m: "mapped s" and d: "distinct (job_ids s)"
    and at: "list_all (\<lambda>j. 1 \<le> attempt j) (heap s)"
    by (simp_all add: orderly_def)
  note rj = running_job[OF assms(1,2), folded a_def s1_def]
  have al: "a < length (heap s1)" using rj(1) by (simp add: s1_def)
  have d1: "distinct (job_ids s1)" using d by (simp add: s1_def job_ids_def)
  have dv: "date_valid (now s1 + retry_delay (config s1) (attempt (heap s1 ! a)))"
    if "strict" "attempt (heap s1 ! a) < maxRetries (config s1)"
    using dates_okD[OF assms(3)[OF that(1)] attempt_at[OF at rj(1)]] that(2) by (simp add: s1_def)
  have "mapped (settle i res s) \<and> tokens_ok strict (settle i res s)
      \<and> distinct (job_ids (settle i res s))
      \<and> list_all (\<lambda>j. 1 \<le> attempt j) (heap (settle i res s))"
  proof (rule settle_cases[of i res s], goal_cases)
    case (1 err)
    let ?m = "handleJobError a err s1"
    have e: "settle i res s = ?m" using 1(1) by (simp add: a_def s1_def)
    have sh: "shape ?m = shape s" by (simp add: shape_handleJobError s1_def)
    note st = structure_shape[OF sh]
    have tok: "tokens_ok strict ?m" by (rule tokens_handleJobError[OF rj(3) d1 dv])
    have "1 \<le> attempt (heap ?m ! b)" if "b < length (heap ?m)" for b
    proof (cases "b = a")
      case True
      then show ?thesis using handleJobError_outcome(2)[OF al, of err] attempt_at[OF at rj(1)]
        by (simp add: s1_def)
    next
      case False
      then show ?thesis
        using handleJobError_frame(8)[OF False, of err s1] that attempt_at[OF at, of b]
        by (simp add: handleJobError_frame s1_def)
    qed
    then have "list_all (\<lambda>j. 1 \<le> attempt j) (heap ?m)" by (simp add: list_all_length)
    then show ?case unfolding e st using m d tok by simp
  next
    case (2 r st')
    let ?m = "upd_job a (\<lambda>j. j\<lparr>status := Completed, completedAt := Some (now s)\<rparr>) (s1\<lparr>storage := st'\<rparr>)"
    have e: "settle i res s = ?m" using 2(2) by (simp add: a_def s1_def)
    have sh: "shape ?m = shape s" by (simp add: shape_upd_job job_key_def s1_def)
    note st = structure_shape[OF sh]
    have but': "tokens_ok_but strict a (s1\<lparr>storage := st'\<rparr>)"
      using rj(3) by (simp add: tokens_ok_but_def job_tokens_ok_def no_stray_def job_ids_def)
    have tok: "tokens_ok strict ?m"
      by (rule place_terminal[OF but', where j' = "(heap s1 ! a)\<lparr>status := Completed, completedAt := Some (now s)\<rparr>"])
         (use d1 in \<open>simp_all add: upd_job_def job_ids_def\<close>)
    have "1 \<le> attempt (heap ?m ! b)" if "b < length (heap ?m)" for b
      using that attempt_at[OF at, of b]
      by (cases "b = a") (simp_all add: upd_job_def s1_def)
    then have "list_all (\<lambda>j. 1 \<le> attempt j) (heap ?m)" by (simp add: list_all_length)
    then show ?case unfolding e st using m d tok by simp
  qed
  then show ?thesis by (simp add: orderly_def)
qed

lemma orderly_generator_settles:
  assumes "orderly strict s" and "strict \<Longrightarrow> dates_ok s"
  shows "orderly strict (generator_settles i res s)"
proof (cases "i < length (pq_running s)")
  case False
  then show ?thesis using assms by (simp add: generator_settles_def)
next
  case True
  have "dates_ok (settle i res s)" if strict
    using assms(2)[OF that] by (simp add: dates_ok_def fixed_settle_but_storage)
  with orderly_settle[OF assms(1) True assms(2)]
  have "orderly strict (tryToStartAnother (settle i res s))"
    by (rule orderly_tryToStartAnother)
  then show ?thesis by (simp add: generator_settles_settle[OF True])
qed

lemma orderly_enqueue:
  assumes "orderly strict s" and "distinct (job_ids (snd (enqueue eid nm s)))"
    and "strict \<Longrightarrow> dates_ok s"
  shows "orderly strict (snd (enqueue eid nm s))"
proof -
  have "dates_ok (enqueued eid nm s)" if strict
    using assms(3)[OF that] by (simp add: dates_ok_def enqueued_fields)
  with orderly_enqueued[OF assms(1) fresh_id[OF assms(2)]]
  show ?thesis unfolding enqueue_enqueued by (rule orderly_tryToStartAnother)
qed

lemma orderly_new: "orderly strict (new_ReasoningQueue st cfg ids t0)"
  by (simp add: orderly_def mapped_def tokens_ok_def no_stray_def job_ids_def
        new_ReasoningQueue_def)

lemma job_ids_step_enqueue:
  "job_ids (queue_step s (Enqueue eid nm)) = job_ids (snd (enqueue eid nm s))"
  unfolding queue_step_def using structure_shape(2)[OF shape_resolve_idle] by simp

lemma distinct_step:
  assumes "distinct (job_ids (queue_run (e # es) s))"
  shows "distinct (job_ids (queue_step s e))"
proof -
  obtain new where "job_ids (queue_run es (queue_step s e)) = job_ids (queue_step s e) @ new"
    using job_ids_run by blast
  with assms show ?thesis by (simp add: queue_run_Cons)
qed

lemma count_pos: "(0 < count_list xs x) = (x \<in> set xs)"
  using count_list_0_iff[of xs x] by auto
section \<open>Queue: retry exhaustion\<close>

text \<open>
  A queue whose generator fails with a retryable error at every invocation, in any
  interleaving of calls of \<open>enqueue\<close>, failures and retry timers: the attempt counter
  of every job keeps step with the invocations of the generator for it.
\<close>

lemma lacking_at:
  "list_all (\<lambda>j. lacking_step sto (job_executionId j) (stepName j)) (heap s) \<Longrightarrow>
   a < length (heap s) \<Longrightarrow>
   lacking_step sto (job_executionId (heap s ! a)) (stepName (heap s ! a))"
  by (simp add: list_all_length)

lemma accounted_at: "list_all (accounted s) [0..<length (heap s)] \<Longrightarrow> a < length (heap s) \<Longrightarrow>
   accounted s a"
  by (simp add: list_all_iff)

lemma accounted_same:
  "heap s' ! b = heap s ! b \<Longrightarrow> config s' = config s \<Longrightarrow> invocations s' b = invocations s b \<Longrightarrow>
   accounted s' b = accounted s b"
  by (cases "status (heap s ! b)") (simp_all add: accounted_def)

text \<open>A step of the queue that touches one job, \<open>a\<close>, and invokes the generator for it or not.\<close>

lemma accounted_step:
  assumes "list_all (accounted s) [0..<length (heap s)]"
    and "list_all (\<lambda>c. fst c < length (heap s)) (generator_calls s)"
    and "length (heap s') = length (heap s)" and "config s' = config s"
    and "\<And>b. b \<noteq> a \<Longrightarrow> heap s' ! b = heap s ! b"
    and "a < length (heap s)"
    and "generator_calls s' = generator_calls s \<or> (\<exists>st. generator_calls s' = generator_calls s @ [(a, st)])"
    and "accounted s' a"
  shows "list_all (accounted s') [0..<length (heap s')]
       \<and> list_all (\<lambda>c. fst c < length (heap s')) (generator_calls s')"
proof -
  have "accounted s' b" if b: "b < length (heap s')" for b
  proof (cases "b = a")
    case True
    then show ?thesis using assms(8) by simp
  next
    case False
    have i: "invocations s' b = invocations s b"
      using assms(7) False by (auto simp: invocations_def)
    have "accounted s b" using accounted_at[OF assms(1)] b assms(3) by simp
    then show ?thesis using accounted_same[OF assms(5)[OF False] assms(4) i] by simp
  qed
  then have "list_all (accounted s') [0..<length (heap s')]" by (simp add: list_all_iff)
  moreover have "list_all (\<lambda>c. fst c < length (heap s')) (generator_calls s')"
    using assms(2,3,6,7) by auto
  ultimately show ?thesis by simp
qed

lemma fw_process:
  assumes "failing_world sto s" and "pq_waiting s = k # rest" and "dates_ok s"
  shows "failing_world sto (processJob k (s\<lparr>pq_waiting := rest\<rparr>))"
proof -
  let ?s0 = "s\<lparr>pq_waiting := rest\<rparr>"
  let ?s' = "processJob k ?s0"
  from assms(1) have o: "orderly True s" and st: "storage s = sto"
    and l: "list_all (\<lambda>j. lacking_step sto (job_executionId j) (stepName j)) (heap s)"
    and ac: "list_all (accounted s) [0..<length (heap s)]"
    and gc: "list_all (\<lambda>c. fst c < length (heap s)) (generator_calls s)"
    by (simp_all add: failing_world_def)
  from waiting_head[OF o assms(2)] obtain a where a: "map_of (jobs s) k = Some a"
    "a < length (heap s)" "status (heap s ! a) = Pending" by blast
  have a0: "map_of (jobs ?s0) k = Some a" "a < length (heap ?s0)" using a by simp_all
  have o': "orderly True ?s'" by (rule orderly_process[OF o assms(2,3)])
  have sh: "shape ?s' = shape s" by (simp add: shape_processJob)
  have l': "list_all (\<lambda>j. lacking_step sto (job_executionId j) (stepName j)) (heap ?s')"
    using structure_shape(5)[OF sh] l by simp
  have la: "lacking_step (storage ?s0) (job_executionId (heap ?s0 ! a)) (stepName (heap ?s0 ! a))"
    using lacking_at[OF l a(2)] st by simp
  note oc = processJob_outcome[OF a0]
  from oc(6)[OF la] obtain stp where n: "status (heap ?s' ! a) = Processing"
    "attempt (heap ?s' ! a) = attempt (heap s ! a)"
    "generator_calls ?s' = generator_calls s @ [(a, stp)]"
    by auto
  have cf: "config ?s' = config s" using fixed_processJob[of k ?s0] by (simp add: fixed_def)
  have "accounted s a" by (rule accounted_at[OF ac a(2)])
  then have aa: "accounted ?s' a"
    using a(3) n cf by (simp add: accounted_def invocations_def)
  have r: "list_all (accounted ?s') [0..<length (heap ?s')]
       \<and> list_all (\<lambda>c. fst c < length (heap ?s')) (generator_calls ?s')"
  proof (rule accounted_step[OF ac gc _ cf _ a(2) _ aa])
    show "length (heap ?s') = length (heap s)" using oc(1) by simp
    show "heap ?s' ! b = heap s ! b" if "b \<noteq> a" for b using oc(2)[OF that] by simp
    show "generator_calls ?s' = generator_calls s
        \<or> (\<exists>st. generator_calls ?s' = generator_calls s @ [(a, st)])"
      using n(3) by blast
  qed
  have st': "storage ?s' = sto" using oc(3) st by simp
  show ?thesis unfolding failing_world_def using o' st' l' r by simp
qed

lemma fw_tryToStartAnother:
  "failing_world sto s \<Longrightarrow> dates_ok s \<Longrightarrow> failing_world sto (tryToStartAnother s)"
proof (induction s rule: tryToStartAnother.induct)
  case (1 s)
  show ?case
  proof (cases "pq_waiting s")
    case Nil
    then show ?thesis using 1(2) by (simp add: tryToStartAnother.simps[of s])
  next
    case (Cons jobId rest)
    show ?thesis
    proof (cases "length (pq_running s) < concurrency (config s)")
      case True
      have d: "dates_ok (processJob jobId (s\<lparr>pq_waiting := rest\<rparr>))"
        using 1(3) dates_ok_fixed[of "processJob jobId (s\<lparr>pq_waiting := rest\<rparr>)" s] by simp
      have "failing_world sto (tryToStartAnother (processJob jobId (s\<lparr>pq_waiting := rest\<rparr>)))"
        by (rule 1(1)[OF Cons True fw_process[OF 1(2) Cons 1(3)] d])
      then show ?thesis using Cons True by (simp add: tryToStartAnother.simps[of s])
    next
      case False
      with Cons show ?thesis using 1(2) by (simp add: tryToStartAnother.simps[of s])
    qed
  qed
qed

lemma fw_frame:
  assumes "jobs s' = jobs s" and "heap s' = heap s" and "pq_waiting s' = pq_waiting s"
    and "pq_running s' = pq_running s" and "timers s' = timers s"
    and "generator_calls s' = generator_calls s" and "storage s' = storage s"
    and "config s' = config s"
  shows "failing_world sto s' = failing_world sto s"
proof -
  have "accounted s' b = accounted s b" for b
    by (rule accounted_same) (simp_all add: assms invocations_def)
  then have "accounted s' = accounted s" by (simp add: fun_eq_iff)
  then show ?thesis
    using assms orderly_frame[of s' s True] by (simp add: failing_world_def)
qed

lemma fw_resolve_idle: "failing_world sto (resolve_idle s) = failing_world sto s"
  by (rule fw_frame) (simp_all add: resolve_idle_def)

lemma fw_timer_fires:
  assumes "failing_world sto s" and "dates_ok s"
  shows "failing_world sto (timer_fires i s)"
proof (cases "i < length (timers s)")
  case False
  then show ?thesis using assms by (simp add: timer_fires_def)
next
  case True
  let ?s1 = "s\<lparr>timers := take i (timers s) @ drop (Suc i) (timers s),
               pq_waiting := pq_waiting s @ [snd (timers s ! i)]\<rparr>"
  from assms have o: "orderly True s" by (simp add: failing_world_def)
  then have t: "tokens_ok True s" and d: "distinct (job_ids s)" by (simp_all add: orderly_def)
  have "tokens_ok True ?s1" by (rule pop_timer[OF t d True])
  then have o1: "orderly True ?s1" using o by (simp add: orderly_def mapped_def job_ids_def)
  have "accounted ?s1 b = accounted s b" for b
    by (rule accounted_same) (simp_all add: invocations_def)
  then have "accounted ?s1 = accounted s" by (simp add: fun_eq_iff)
  with o1 have "failing_world sto ?s1" using assms(1) by (simp add: failing_world_def)
  moreover have "dates_ok ?s1" using assms(2) by (simp add: dates_ok_def)
  ultimately have "failing_world sto (tryToStartAnother ?s1)" by (rule fw_tryToStartAnother)
  then show ?thesis using True by (simp add: timer_fires_def pq_add_def)
qed

lemma fw_enqueue:
  assumes "failing_world sto s" and "lacking_step sto eid nm"
    and "distinct (job_ids (snd (enqueue eid nm s)))" and "dates_ok s"
  shows "failing_world sto (snd (enqueue eid nm s))"
proof -
  let ?s1 = "enqueued eid nm s"
  let ?n = "length (heap s)"
  from assms(1) have o: "orderly True s" and st: "storage s = sto"
    and l: "list_all (\<lambda>j. lacking_step sto (job_executionId j) (stepName j)) (heap s)"
    and ac: "list_all (accounted s) [0..<length (heap s)]"
    and gc: "list_all (\<lambda>c. fst c < length (heap s)) (generator_calls s)"
    by (simp_all add: failing_world_def)
  have o1: "orderly True ?s1" by (rule orderly_enqueued[OF o fresh_id[OF assms(3)]])
  have l1: "list_all (\<lambda>j. lacking_step sto (job_executionId j) (stepName j)) (heap ?s1)"
    using l assms(2) by (simp add: enqueued_fields new_job_def)
  have z: "invocations ?s1 ?n = 0"
    using gc by (auto simp: invocations_def enqueued_fields count_list_0_iff list_all_iff)
  have "accounted ?s1 b" if b: "b < length (heap ?s1)" for b
  proof (cases "b = ?n")
    case True
    then show ?thesis using z
      by (simp add: accounted_def enqueued_fields new_job_def)
  next
    case False
    then have b': "b < ?n" using b by (simp add: enqueued_fields)
    have "accounted ?s1 b = accounted s b"
      by (rule accounted_same) (use b' in \<open>simp_all add: invocations_def enqueued_fields nth_append\<close>)
    with accounted_at[OF ac b'] show ?thesis by simp
  qed
  then have a1: "list_all (accounted ?s1) [0..<length (heap ?s1)]" by (simp add: list_all_iff)
  have g1: "list_all (\<lambda>c. fst c < length (heap ?s1)) (generator_calls ?s1)"
    using gc by (auto simp: enqueued_fields list_all_iff)
  have "failing_world sto ?s1"
    unfolding failing_world_def using o1 st l1 a1 g1 by (simp add: enqueued_fields)
  moreover have "dates_ok ?s1" using assms(4) by (simp add: dates_ok_def enqueued_fields)
  ultimately show ?thesis unfolding enqueue_enqueued by (rule fw_tryToStartAnother)
qed

lemma fw_settle:
  assumes "failing_world sto s" and "i < length (pq_running s)" and "isRetryableError err"
    and "dates_ok s"
  shows "failing_world sto (settle i (Inl err) s)"
proof -
  define a where "a = fst (pq_running s ! i)"
  define s1 where "s1 = s\<lparr>pq_running := take i (pq_running s) @ drop (Suc i) (pq_running s)\<rparr>"
  let ?m = "handleJobError a err s1"
  from assms(1) have o: "orderly True s" and st: "storage s = sto"
    and l: "list_all (\<lambda>j. lacking_step sto (job_executionId j) (stepName j)) (heap s)"
    and ac: "list_all (accounted s) [0..<length (heap s)]"
    and gc: "list_all (\<lambda>c. fst c < length (heap s)) (generator_calls s)"
    by (simp_all add: failing_world_def)
  note rj = running_job[OF o assms(2), folded a_def s1_def]
  have al: "a < length (heap s1)" using rj(1) by (simp add: s1_def)
  have e: "settle i (Inl err) s = ?m" by (simp add: settle_def Let_def a_def s1_def)
  have o': "orderly True (settle i (Inl err) s)" by (rule orderly_settle[OF o assms(2,4)])
  have sh: "shape ?m = shape s" by (simp add: shape_handleJobError s1_def)
  have l': "list_all (\<lambda>j. lacking_step sto (job_executionId j) (stepName j)) (heap ?m)"
    using structure_shape(5)[OF sh] l by simp
  have cf: "config ?m = config s" by (simp add: handleJobError_frame s1_def)
  have g: "generator_calls ?m = generator_calls s" by (simp add: handleJobError_frame s1_def)
  from o have "list_all (\<lambda>j. 1 \<le> attempt j) (heap s)" by (simp add: orderly_def)
  then have k1: "1 \<le> attempt (heap s ! a)" using rj(1) by (rule attempt_at)
  have "accounted s a" by (rule accounted_at[OF ac rj(1)])
  then have aa: "accounted ?m a"
    using rj(2) k1 assms(3) handleJobError_outcome[OF al, of err] cf g
    by (auto simp: accounted_def invocations_def s1_def)
  have r: "list_all (accounted ?m) [0..<length (heap ?m)]
       \<and> list_all (\<lambda>c. fst c < length (heap ?m)) (generator_calls ?m)"
  proof (rule accounted_step[OF ac gc _ cf _ rj(1) _ aa])
    show "length (heap ?m) = length (heap s)" by (simp add: handleJobError_frame s1_def)
    show "heap ?m ! b = heap s ! b" if "b \<noteq> a" for b
      using handleJobError_frame(8)[OF that, of err s1] by (simp add: s1_def)
    show "generator_calls ?m = generator_calls s
        \<or> (\<exists>st. generator_calls ?m = generator_calls s @ [(a, st)])"
      using g by simp
  qed
  have st': "storage ?m = sto" using st by (simp add: handleJobError_frame s1_def)
  show ?thesis using o' st' l' r unfolding e failing_world_def by simp
qed

lemma fw_generator_settles:
  assumes "failing_world sto s" and "isRetryableError err" and "dates_ok s"
  shows "failing_world sto (generator_settles i (Inl err) s)"
proof (cases "i < length (pq_running s)")
  case False
  then show ?thesis using assms by (simp add: generator_settles_def)
next
  case True
  have "dates_ok (settle i (Inl err) s)"
    using assms(3) by (simp add: dates_ok_def fixed_settle_but_storage)
  with fw_settle[OF assms(1) True assms(2,3)]
  have "failing_world sto (tryToStartAnother (settle i (Inl err) s))"
    by (rule fw_tryToStartAnother)
  then show ?thesis by (simp add: generator_settles_settle[OF True])
qed

lemma fw_event:
  assumes "failing_world sto s" and "failing_event sto e"
    and "distinct (job_ids (queue_step s e))" and "dates_ok s"
  shows "failing_world sto (queue_step s e)"
proof (cases e)
  case (Enqueue eid nm)
  with assms(2) have la: "lacking_step sto eid nm" by simp
  from assms(3) have "distinct (job_ids (snd (enqueue eid nm s)))"
    by (simp add: Enqueue job_ids_step_enqueue)
  from fw_enqueue[OF assms(1) la this assms(4)] show ?thesis
    by (simp add: queue_step_def Enqueue fw_resolve_idle)
next
  case (GeneratorSettles i res)
  with assms(2) obtain err where r: "res = Inl err" "isRetryableError err"
    by (cases res) simp_all
  from fw_generator_settles[OF assms(1) r(2) assms(4)] show ?thesis
    by (simp add: queue_step_def GeneratorSettles r(1) fw_resolve_idle)
next
  case (TimerFires i)
  then show ?thesis using fw_timer_fires[OF assms(1,4)] by (simp add: queue_step_def fw_resolve_idle)
next
  case (ClockAdvances x)
  have "failing_world sto (s\<lparr>now := now s + x\<rparr>) = failing_world sto s"
    by (rule fw_frame) simp_all
  then show ?thesis using assms(1) ClockAdvances by (simp add: queue_step_def fw_resolve_idle)
qed (use assms(2) in simp_all)

lemma fw_run:
  assumes "failing_world sto s" and "list_all (failing_event sto) es"
    and "distinct (job_ids (queue_run es s))" and "dates_along es s"
  shows "failing_world sto (queue_run es s)"
  using assms
proof (induction es arbitrary: s)
  case Nil
  then show ?case by (simp add: queue_run_Nil)
next
  case (Cons e es)
  from Cons.prems distinct_step[OF Cons.prems(3)] have "failing_world sto (queue_step s e)"
    by (simp add: fw_event)
  with Cons.IH[of "queue_step s e"] Cons.prems show ?case by (simp add: queue_run_Cons)
qed

lemma fw_new: "failing_world sto (new_ReasoningQueue sto cfg ids t0)"
  using orderly_new[of True sto cfg ids t0]
  by (simp add: failing_world_def new_ReasoningQueue_def)

lemma config_event:
  assumes "failing_event sto e"
  shows "config (queue_step s e) = config s"
proof -
  have t: "config (tryToStartAnother x) = config x" for x
    using fixed_tryToStartAnother[of x] by (simp add: fixed_def)
  show ?thesis
  proof (cases e)
    case (Enqueue eid nm)
    then show ?thesis
      by (simp add: queue_step_def resolve_idle_def enqueue_enqueued t enqueued_fields)
  next
    case g: (GeneratorSettles i res)
    show ?thesis
    proof (cases "i < length (pq_running s)")
      case True
      then show ?thesis
        by (simp add: g queue_step_def resolve_idle_def generator_settles_settle t
              fixed_settle_but_storage)
    next
      case False
      then show ?thesis by (simp add: g queue_step_def resolve_idle_def generator_settles_def)
    qed
  next
    case (TimerFires i)
    then show ?thesis
      by (simp add: queue_step_def resolve_idle_def timer_fires_def pq_add_def t)
  next
    case (ClockAdvances x)
    then show ?thesis by (simp add: queue_step_def resolve_idle_def)
  qed (use assms in simp_all)
qed

lemma config_run:
  "list_all (failing_event sto) es \<Longrightarrow> config (queue_run es s) = config s"
proof (induction es arbitrary: s)
  case Nil
  then show ?case by (simp add: queue_run_Nil)
next
  case (Cons e es)
  from Cons.prems have "config (queue_step s e) = config s" using config_event[of sto e s] by simp
  with Cons.IH[of "queue_step s e"] Cons.prems show ?case by (simp add: queue_run_Cons)
qed

text \<open>In a queue in order, the jobs with a task are the pending jobs and those in processing.\<close>

lemma has_task_status:
  assumes "orderly True s" and "a < length (heap s)"
  shows "has_task s a = (status (heap s ! a) = Pending \<or> status (heap s ! a) = Processing)"
proof -
  from assms have "job_tokens_ok True s a" by (simp add: orderly_def tokens_ok_def)
  moreover have "has_task s a =
     (0 < count_list (pq_waiting s) (job_id (heap s ! a))
      \<or> 0 < count_list (map fst (pq_running s)) a
      \<or> 0 < count_list (map snd (timers s)) (job_id (heap s ! a)))"
    using count_pos[of "map fst (pq_running s)" a] count_pos[of "map snd (timers s)" "job_id (heap s ! a)"]
    by (simp add: has_task_def count_pos)
  ultimately show ?thesis
    by (cases "status (heap s ! a)") (auto simp: job_tokens_ok_def tokens_for_def)
qed

lemma exhaustion:
  assumes "list_all (failing_event sto) es"
    and "distinct (job_ids (queue_run es (new_ReasoningQueue sto cfg ids t0)))"
    and "dates_along es (new_ReasoningQueue sto cfg ids t0)"
    and "a < length (heap (queue_run es (new_ReasoningQueue sto cfg ids t0)))"
  shows "status (heap (queue_run es (new_ReasoningQueue sto cfg ids t0)) ! a) \<noteq> Completed"
    and "int (invocations (queue_run es (new_ReasoningQueue sto cfg ids t0)) a) \<le> max 1 (maxRetries cfg)"
    and "attempt (heap (queue_run es (new_ReasoningQueue sto cfg ids t0)) ! a) \<le> max 1 (maxRetries cfg)"
    and "(status (heap (queue_run es (new_ReasoningQueue sto cfg ids t0)) ! a) = Failed)
          = (\<not> has_task (queue_run es (new_ReasoningQueue sto cfg ids t0)) a)"
    and "status (heap (queue_run es (new_ReasoningQueue sto cfg ids t0)) ! a) = Failed \<Longrightarrow>
           int (invocations (queue_run es (new_ReasoningQueue sto cfg ids t0)) a) = max 1 (maxRetries cfg)
         \<and> attempt (heap (queue_run es (new_ReasoningQueue sto cfg ids t0)) ! a) = max 1 (maxRetries cfg)"
proof -
  let ?s = "queue_run es (new_ReasoningQueue sto cfg ids t0)"
  have fw: "failing_world sto ?s" by (rule fw_run[OF fw_new assms(1,2,3)])
  have cf: "config ?s = cfg" using config_run[OF assms(1)] by (simp add: new_ReasoningQueue_def)
  from fw have o: "orderly True ?s" and ac: "list_all (accounted ?s) [0..<length (heap ?s)]"
    by (simp_all add: failing_world_def)
  from o have "list_all (\<lambda>j. 1 \<le> attempt j) (heap ?s)" by (simp add: orderly_def)
  then have k1: "1 \<le> attempt (heap ?s ! a)" using assms(4) by (rule attempt_at)
  have acc: "accounted ?s a" by (rule accounted_at[OF ac assms(4)])
  note ht = has_task_status[OF o assms(4)]
  show "status (heap ?s ! a) \<noteq> Completed" using acc by (auto simp: accounted_def)
  show "int (invocations ?s a) \<le> max 1 (maxRetries cfg)"
    using acc cf by (cases "status (heap ?s ! a)") (auto simp: accounted_def)
  show "attempt (heap ?s ! a) \<le> max 1 (maxRetries cfg)" using acc cf by (simp add: accounted_def)
  show "(status (heap ?s ! a) = Failed) = (\<not> has_task ?s a)"
    using acc ht by (cases "status (heap ?s ! a)") (auto simp: accounted_def)
  show "int (invocations ?s a) = max 1 (maxRetries cfg)
         \<and> attempt (heap ?s ! a) = max 1 (maxRetries cfg)"
    if "status (heap ?s ! a) = Failed"
    using acc cf that by (simp add: accounted_def)
qed

text \<open>
  C2, as the code has it. On a new queue, let enqueue be called only for steps that are
  in the storage without a reasoning, let every generator call settle with a retryable
  error, and let nothing else happen than that, retry timers firing and the clock
  moving on, with distinct job ids and with every retry date valid. Then for every job:
  it is never completed; the generator is invoked for it at most \<open>max 1 maxRetries\<close>
  times; it is failed exactly when it has no task left; and once it is failed, which it
  is at the latest when the queue has no task and no timer left, the generator has been
  invoked for it exactly \<open>max 1 maxRetries\<close> times and its attempt is
  \<open>max 1 maxRetries\<close> (that is, maxRetries when maxRetries is at least one, and one
  otherwise).
\<close>

theorem retry_exhaustion:
  assumes "list_all (failing_event sto) es"
    and "distinct (job_ids (queue_run es (new_ReasoningQueue sto cfg ids t0)))"
    and "dates_along es (new_ReasoningQueue sto cfg ids t0)"
    and "a < length (heap (queue_run es (new_ReasoningQueue sto cfg ids t0)))"
  shows "status (heap (queue_run es (new_ReasoningQueue sto cfg ids t0)) ! a) \<noteq> Completed
       \<and> int (invocations (queue_run es (new_ReasoningQueue sto cfg ids t0)) a) \<le> max 1 (maxRetries cfg)
       \<and> (status (heap (queue_run es (new_ReasoningQueue sto cfg ids t0)) ! a) = Failed)
           = (\<not> has_task (queue_run es (new_ReasoningQueue sto cfg ids t0)) a)
       \<and> (status (heap (queue_run es (new_ReasoningQueue sto cfg ids t0)) ! a) = Failed \<longrightarrow>
            int (invocations (queue_run es (new_ReasoningQueue sto cfg ids t0)) a) = max 1 (maxRetries cfg)
          \<and> attempt (heap (queue_run es (new_ReasoningQueue sto cfg ids t0)) ! a) = max 1 (maxRetries cfg))
       \<and> (pq_waiting (queue_run es (new_ReasoningQueue sto cfg ids t0)) = []
          \<and> pq_running (queue_run es (new_ReasoningQueue sto cfg ids t0)) = []
          \<and> timers (queue_run es (new_ReasoningQueue sto cfg ids t0)) = [] \<longrightarrow>
            status (heap (queue_run es (new_ReasoningQueue sto cfg ids t0)) ! a) = Failed
          \<and> int (invocations (queue_run es (new_ReasoningQueue sto cfg ids t0)) a) = max 1 (maxRetries cfg)
          \<and> attempt (heap (queue_run es (new_ReasoningQueue sto cfg ids t0)) ! a) = max 1 (maxRetries cfg))"
proof -
  let ?s = "queue_run es (new_ReasoningQueue sto cfg ids t0)"
  note e = exhaustion[OF assms]
  have idle: "status (heap ?s ! a) = Failed"
    if "pq_waiting ?s = [] \<and> pq_running ?s = [] \<and> timers ?s = []"
  proof -
    from that have "\<not> has_task ?s a" by (simp add: has_task_def)
    then show ?thesis using e(4) by simp
  qed
  show ?thesis using e(1,2,4) e(5) idle by blast
qed

lemma ETIMEDOUT_retryable: "isRetryableError ETIMEDOUT"
  by (simp add: isRetryableError_def retryablePatterns_def errorMessage_def Error_def ETIMEDOUT_def)

lemma two_attempts_eval:
  "list_all (failing_event [''exec-1'' \<mapsto> exec_1])
     [Enqueue ''exec-1'' ''fetch'', ClockAdvances 40, GeneratorSettles 0 (Inl ETIMEDOUT),
      ClockAdvances 1000, TimerFires 0, ClockAdvances 40, GeneratorSettles 0 (Inl ETIMEDOUT)]"
  "dates_along
     [Enqueue ''exec-1'' ''fetch'', ClockAdvances 40, GeneratorSettles 0 (Inl ETIMEDOUT),
      ClockAdvances 1000, TimerFires 0, ClockAdvances 40, GeneratorSettles 0 (Inl ETIMEDOUT)]
     two_attempts_queue"
  "map (\<lambda>j. (job_id j, status j, attempt j)) (heap (queue_run
     [Enqueue ''exec-1'' ''fetch'', ClockAdvances 40, GeneratorSettles 0 (Inl ETIMEDOUT),
      ClockAdvances 1000, TimerFires 0, ClockAdvances 40, GeneratorSettles 0 (Inl ETIMEDOUT)]
     two_attempts_queue)) = [(''j'', Failed, 2)]"
  "map fst (generator_calls (queue_run
     [Enqueue ''exec-1'' ''fetch'', ClockAdvances 40, GeneratorSettles 0 (Inl ETIMEDOUT),
      ClockAdvances 1000, TimerFires 0, ClockAdvances 40, GeneratorSettles 0 (Inl ETIMEDOUT)]
     two_attempts_queue)) = [0, 0]"
  "pq_waiting (queue_run
     [Enqueue ''exec-1'' ''fetch'', ClockAdvances 40, GeneratorSettles 0 (Inl ETIMEDOUT),
      ClockAdvances 1000, TimerFires 0, ClockAdvances 40, GeneratorSettles 0 (Inl ETIMEDOUT)]
     two_attempts_queue) = []"
  "pq_running (queue_run
     [Enqueue ''exec-1'' ''fetch'', ClockAdvances 40, GeneratorSettles 0 (Inl ETIMEDOUT),
      ClockAdvances 1000, TimerFires 0, ClockAdvances 40, GeneratorSettles 0 (Inl ETIMEDOUT)]
     two_attempts_queue) = []"
  "timers (queue_run
     [Enqueue ''exec-1'' ''fetch'', ClockAdvances 40, GeneratorSettles 0 (Inl ETIMEDOUT),
      ClockAdvances 1000, TimerFires 0, ClockAdvances 40, GeneratorSettles 0 (Inl ETIMEDOUT)]
     two_attempts_queue) = []"
  by (simp_all add: queue_eval two_attempts_queue_def lacking_step_def dates_ok_def upt_conv_Cons)

theorem retry_exhaustion_witness:
  "list_all (failing_event [''exec-1'' \<mapsto> exec_1])
     [Enqueue ''exec-1'' ''fetch'', ClockAdvances 40, GeneratorSettles 0 (Inl ETIMEDOUT),
      ClockAdvances 1000, TimerFires 0, ClockAdvances 40, GeneratorSettles 0 (Inl ETIMEDOUT)]
   \<and> dates_along
     [Enqueue ''exec-1'' ''fetch'', ClockAdvances 40, GeneratorSettles 0 (Inl ETIMEDOUT),
      ClockAdvances 1000, TimerFires 0, ClockAdvances 40, GeneratorSettles 0 (Inl ETIMEDOUT)]
     two_attempts_queue
   \<and> maxRetries (DEFAULT_REASONING_CONFIG\<lparr>maxRetries := 2\<rparr>) = 2
   \<and> map (\<lambda>j. (job_id j, status j, attempt j)) (heap (queue_run
     [Enqueue ''exec-1'' ''fetch'', ClockAdvances 40, GeneratorSettles 0 (Inl ETIMEDOUT),
      ClockAdvances 1000, TimerFires 0, ClockAdvances 40, GeneratorSettles 0 (Inl ETIMEDOUT)]
     two_attempts_queue)) = [(''j'', Failed, 2)]
   \<and> invocations (queue_run
     [Enqueue ''exec-1'' ''fetch'', ClockAdvances 40, GeneratorSettles 0 (Inl ETIMEDOUT),
      ClockAdvances 1000, TimerFires 0, ClockAdvances 40, GeneratorSettles 0 (Inl ETIMEDOUT)]
     two_attempts_queue) 0 = 2
   \<and> \<not> has_task (queue_run
     [Enqueue ''exec-1'' ''fetch'', ClockAdvances 40, GeneratorSettles 0 (Inl ETIMEDOUT),
      ClockAdvances 1000, TimerFires 0, ClockAdvances 40, GeneratorSettles 0 (Inl ETIMEDOUT)]
     two_attempts_queue) 0"
proof -
  let ?es = "[Enqueue ''exec-1'' ''fetch'', ClockAdvances 40, GeneratorSettles 0 (Inl ETIMEDOUT),
      ClockAdvances 1000, TimerFires 0, ClockAdvances 40, GeneratorSettles 0 (Inl ETIMEDOUT)]"
  note v = two_attempts_eval
  have h: "heap (queue_run ?es two_attempts_queue) \<noteq> []"
    "job_ids (queue_run ?es two_attempts_queue) = [''j'']"
    using v(3) by (auto simp: job_ids_def)
  then have l: "0 < length (heap (queue_run ?es two_attempts_queue))"
    "distinct (job_ids (queue_run ?es two_attempts_queue))"
    by simp_all
  note T = retry_exhaustion[of "[''exec-1'' \<mapsto> exec_1]" ?es
      "DEFAULT_REASONING_CONFIG\<lparr>maxRetries := 2\<rparr>" sample_ids 0 0,
      folded two_attempts_queue_def, OF v(1) l(2) v(2) l(1)]
  from T v(5,6,7) have f: "status (heap (queue_run ?es two_attempts_queue) ! 0) = Failed"
    "int (invocations (queue_run ?es two_attempts_queue) 0)
       = max 1 (maxRetries (DEFAULT_REASONING_CONFIG\<lparr>maxRetries := 2\<rparr>))"
    by blast+
  from T f(1) have n: "\<not> has_task (queue_run ?es two_attempts_queue) 0" by blast
  from f(2) have i: "invocations (queue_run ?es two_attempts_queue) 0 = 2" by simp
  show ?thesis using v(1,2,3) i n by simp
qed

text \<open>
  The claim as stated fails for maxRetries = 0: the generator is invoked once, not zero
  times, and the failed job has attempt 1, not 0. It also fails when a retry date is not
  a valid date: with a first delay of 8.64e15 ms the job is set back to pending at
  attempt 2 and no timer is set, so that it never fails.
\<close>

theorem retry_exhaustion_zero_counterexample:
  "maxRetries (config no_retry_queue) = 0
   \<and> isRetryableError ETIMEDOUT
   \<and> map fst (generator_calls (queue_run
        [Enqueue ''exec-1'' ''fetch'', GeneratorSettles 0 (Inl ETIMEDOUT)] no_retry_queue)) = [0]
   \<and> map status (heap (queue_run
        [Enqueue ''exec-1'' ''fetch'', GeneratorSettles 0 (Inl ETIMEDOUT)] no_retry_queue)) = [Failed]
   \<and> map attempt (heap (queue_run
        [Enqueue ''exec-1'' ''fetch'', GeneratorSettles 0 (Inl ETIMEDOUT)] no_retry_queue)) = [1]
   \<and> timers (queue_run
        [Enqueue ''exec-1'' ''fetch'', GeneratorSettles 0 (Inl ETIMEDOUT)] no_retry_queue) = []
   \<and> maxRetries (config far_retry_queue) = 4
   \<and> retryDelays (config far_retry_queue) = [8640000000000000] \<and> now far_retry_queue = 1
   \<and> map (\<lambda>j. (status j, attempt j, nextRetryAt j)) (heap (queue_run
        [Enqueue ''exec-1'' ''fetch'', GeneratorSettles 0 (Inl ETIMEDOUT)] far_retry_queue))
       = [(Pending, 2, None)]
   \<and> map fst (generator_calls (queue_run
        [Enqueue ''exec-1'' ''fetch'', GeneratorSettles 0 (Inl ETIMEDOUT)] far_retry_queue)) = [0]
   \<and> timers (queue_run
        [Enqueue ''exec-1'' ''fetch'', GeneratorSettles 0 (Inl ETIMEDOUT)] far_retry_queue) = []
   \<and> pq_waiting (queue_run
        [Enqueue ''exec-1'' ''fetch'', GeneratorSettles 0 (Inl ETIMEDOUT)] far_retry_queue) = []
   \<and> pq_running (queue_run
        [Enqueue ''exec-1'' ''fetch'', GeneratorSettles 0 (Inl ETIMEDOUT)] far_retry_queue) = []"
  by (simp add: queue_eval no_retry_queue_def far_retry_queue_def)
section \<open>Queue: the short circuit\<close>

























end
